theory Spec2Isabelle
  imports Main
begin

unbundle bit_operations_syntax

section \<open>Error classification (cerberus/errors.py)\<close>

text \<open>
  An \<open>ErrorDefinition\<close> is the pair of an integer code and an optional rule name.
  Python's integers are unbounded, so codes are \<^typ>\<open>int\<close>; \<open>&\<close> on them is the
  two's-complement \<open>AND\<close> of \<^typ>\<open>int\<close>.
\<close>

datatype ErrorDefinition = ErrorDefinition (def_code: int) (def_rule: "string option")

definition CUSTOM :: ErrorDefinition where "CUSTOM = ErrorDefinition 0x00 None"
definition DOCUMENT_MISSING :: ErrorDefinition where "DOCUMENT_MISSING = ErrorDefinition 0x01 None"
definition REQUIRED_FIELD :: ErrorDefinition where "REQUIRED_FIELD = ErrorDefinition 0x02 (Some ''required'')"
definition UNKNOWN_FIELD :: ErrorDefinition where "UNKNOWN_FIELD = ErrorDefinition 0x03 None"
definition DEPENDENCIES_FIELD :: ErrorDefinition where "DEPENDENCIES_FIELD = ErrorDefinition 0x04 (Some ''dependencies'')"
definition DEPENDENCIES_FIELD_VALUE :: ErrorDefinition where "DEPENDENCIES_FIELD_VALUE = ErrorDefinition 0x05 (Some ''dependencies'')"
definition EXCLUDES_FIELD :: ErrorDefinition where "EXCLUDES_FIELD = ErrorDefinition 0x06 (Some ''excludes'')"
definition DOCUMENT_FORMAT :: ErrorDefinition where "DOCUMENT_FORMAT = ErrorDefinition 0x21 None"
definition EMPTY :: ErrorDefinition where "EMPTY = ErrorDefinition 0x22 (Some ''empty'')"
definition NULLABLE :: ErrorDefinition where "NULLABLE = ErrorDefinition 0x23 (Some ''nullable'')"
definition TYPE' :: ErrorDefinition where "TYPE' = ErrorDefinition 0x24 (Some ''type'')"
definition ITEMS_LENGTH :: ErrorDefinition where "ITEMS_LENGTH = ErrorDefinition 0x26 (Some ''items'')"
definition MIN_LENGTH :: ErrorDefinition where "MIN_LENGTH = ErrorDefinition 0x27 (Some ''minlength'')"
definition MAX_LENGTH :: ErrorDefinition where "MAX_LENGTH = ErrorDefinition 0x28 (Some ''maxlength'')"
definition REGEX_MISMATCH :: ErrorDefinition where "REGEX_MISMATCH = ErrorDefinition 0x41 (Some ''regex'')"
definition MIN_VALUE :: ErrorDefinition where "MIN_VALUE = ErrorDefinition 0x42 (Some ''min'')"
definition MAX_VALUE :: ErrorDefinition where "MAX_VALUE = ErrorDefinition 0x43 (Some ''max'')"
definition UNALLOWED_VALUE :: ErrorDefinition where "UNALLOWED_VALUE = ErrorDefinition 0x44 (Some ''allowed'')"
definition UNALLOWED_VALUES :: ErrorDefinition where "UNALLOWED_VALUES = ErrorDefinition 0x45 (Some ''allowed'')"
definition FORBIDDEN_VALUE :: ErrorDefinition where "FORBIDDEN_VALUE = ErrorDefinition 0x46 (Some ''forbidden'')"
definition FORBIDDEN_VALUES :: ErrorDefinition where "FORBIDDEN_VALUES = ErrorDefinition 0x47 (Some ''forbidden'')"
definition MISSING_MEMBERS :: ErrorDefinition where "MISSING_MEMBERS = ErrorDefinition 0x48 (Some ''contains'')"
definition NORMALIZATION :: ErrorDefinition where "NORMALIZATION = ErrorDefinition 0x60 None"
definition COERCION_FAILED :: ErrorDefinition where "COERCION_FAILED = ErrorDefinition 0x61 (Some ''coerce'')"
definition RENAMING_FAILED :: ErrorDefinition where "RENAMING_FAILED = ErrorDefinition 0x62 (Some ''rename_handler'')"
definition READONLY_FIELD :: ErrorDefinition where "READONLY_FIELD = ErrorDefinition 0x63 (Some ''readonly'')"
definition SETTING_DEFAULT_FAILED :: ErrorDefinition where "SETTING_DEFAULT_FAILED = ErrorDefinition 0x64 (Some ''default_setter'')"
definition ERROR_GROUP :: ErrorDefinition where "ERROR_GROUP = ErrorDefinition 0x80 None"
definition SCHEMA :: ErrorDefinition where "SCHEMA = ErrorDefinition 0x81 (Some ''schema'')"
definition ITEMSRULES :: ErrorDefinition where "ITEMSRULES = ErrorDefinition 0x82 (Some ''itemsrules'')"
definition KEYSRULES :: ErrorDefinition where "KEYSRULES = ErrorDefinition 0x83 (Some ''keysrules'')"
definition VALUESRULES :: ErrorDefinition where "VALUESRULES = ErrorDefinition 0x84 (Some ''valuesrules'')"
definition ITEMS :: ErrorDefinition where "ITEMS = ErrorDefinition 0x8F (Some ''items'')"
definition LOGICAL :: ErrorDefinition where "LOGICAL = ErrorDefinition 0x90 None"
definition NONEOF :: ErrorDefinition where "NONEOF = ErrorDefinition 0x91 (Some ''noneof'')"
definition ONEOF :: ErrorDefinition where "ONEOF = ErrorDefinition 0x92 (Some ''oneof'')"
definition ANYOF :: ErrorDefinition where "ANYOF = ErrorDefinition 0x93 (Some ''anyof'')"
definition ALLOF :: ErrorDefinition where "ALLOF = ErrorDefinition 0x94 (Some ''allof'')"

text \<open>
  Every \<open>ErrorDefinition(...)\<close> the module constructs, in source order (lines 44 to 94).
  The names \<open>DOCUMENT_MISSING\<close> and \<open>DOCUMENT_FORMAT\<close> are rebound to message strings
  on the line after their definition; the two definitions are listed all the same.
\<close>

definition error_definitions :: "ErrorDefinition list" where
  "error_definitions =
    [CUSTOM,
     DOCUMENT_MISSING, REQUIRED_FIELD, UNKNOWN_FIELD, DEPENDENCIES_FIELD,
     DEPENDENCIES_FIELD_VALUE, EXCLUDES_FIELD,
     DOCUMENT_FORMAT, EMPTY, NULLABLE, TYPE', ITEMS_LENGTH, MIN_LENGTH, MAX_LENGTH,
     REGEX_MISMATCH, MIN_VALUE, MAX_VALUE, UNALLOWED_VALUE, UNALLOWED_VALUES,
     FORBIDDEN_VALUE, FORBIDDEN_VALUES, MISSING_MEMBERS,
     NORMALIZATION, COERCION_FAILED, RENAMING_FAILED, READONLY_FIELD, SETTING_DEFAULT_FAILED,
     ERROR_GROUP, SCHEMA, ITEMSRULES, KEYSRULES, VALUESRULES, ITEMS,
     LOGICAL, NONEOF, ONEOF, ANYOF, ALLOF]"

lemmas error_definition_defs =
  CUSTOM_def DOCUMENT_MISSING_def REQUIRED_FIELD_def UNKNOWN_FIELD_def DEPENDENCIES_FIELD_def
  DEPENDENCIES_FIELD_VALUE_def EXCLUDES_FIELD_def DOCUMENT_FORMAT_def EMPTY_def NULLABLE_def
  TYPE'_def ITEMS_LENGTH_def MIN_LENGTH_def MAX_LENGTH_def REGEX_MISMATCH_def MIN_VALUE_def
  MAX_VALUE_def UNALLOWED_VALUE_def UNALLOWED_VALUES_def FORBIDDEN_VALUE_def
  FORBIDDEN_VALUES_def MISSING_MEMBERS_def NORMALIZATION_def COERCION_FAILED_def
  RENAMING_FAILED_def READONLY_FIELD_def SETTING_DEFAULT_FAILED_def ERROR_GROUP_def SCHEMA_def
  ITEMSRULES_def KEYSRULES_def VALUESRULES_def ITEMS_def LOGICAL_def NONEOF_def ONEOF_def
  ANYOF_def ALLOF_def

text \<open>The definitions that carry a given rule name.\<close>

definition definitions_of_rule :: "string \<Rightarrow> ErrorDefinition list" where
  "definitions_of_rule r = filter (\<lambda>d. def_rule d = Some r) error_definitions"

text \<open>The rule names of the definitions that have one, in source order.\<close>

definition rule_names :: "string list" where
  "rule_names =
     concat (map (\<lambda>d. case def_rule d of None \<Rightarrow> [] | Some r \<Rightarrow> [r]) error_definitions)"

section \<open>ValidationError\<close>

text \<open>
  A path is a tuple of field names and indices. The payloads \<open>constraint\<close>, \<open>value\<close> and
  the entries of \<open>info\<close> are typed \<open>Any\<close> in the source; the model admits \<open>None\<close>,
  strings and integers, and, as an entry of \<open>info\<close>, a list of child errors, which is what
  a group error holds at \<open>info[0]\<close>.
\<close>

datatype seg = SStr string | SInt int

type_synonym path = "seg list"

datatype val = VNone | VStr string | VInt int

datatype pyerr = IndexError | KeyError | TypeError | AttributeError

datatype verror =
  ValidationError (document_path: path) (schema_path: path) (code: int)
    (rule: "string option") (constraint: val) (value': val) (info: "info_item list")
and info_item = Payload val | Children "verror list"

definition is_group_error :: "verror \<Rightarrow> bool" where
  "is_group_error e = (code e AND def_code ERROR_GROUP \<noteq> 0)"

text \<open>
  \<open>bool(self.code & LOGICAL.code - ERROR_GROUP.code)\<close>: in Python \<open>-\<close> binds tighter
  than \<open>&\<close>.
\<close>

definition is_logic_error :: "verror \<Rightarrow> bool" where
  "is_logic_error e = (code e AND (def_code LOGICAL - def_code ERROR_GROUP) \<noteq> 0)"

definition is_normalization_error :: "verror \<Rightarrow> bool" where
  "is_normalization_error e = (code e AND def_code NORMALIZATION \<noteq> 0)"

text \<open>
  \<open>__hash__\<close> and \<open>__eq__\<close>. The built-in \<open>hash\<close> of a tuple and of an integer belong
  to the interpreter (string hashes are salted per process), so they are parameters
  \<open>hp\<close> and \<open>hi\<close>. The built-in \<open>hash(obj)\<close> returns what \<open>__hash__\<close> computes,
  except that \<open>-1\<close> is reported as \<open>-2\<close>.
\<close>

definition ValidationError_hash' :: "(path \<Rightarrow> int) \<Rightarrow> (int \<Rightarrow> int) \<Rightarrow> verror \<Rightarrow> int" where
  "ValidationError_hash' hp hi self =
     hp (document_path self) XOR hp (schema_path self) XOR hi (code self)"

definition py_hash :: "(path \<Rightarrow> int) \<Rightarrow> (int \<Rightarrow> int) \<Rightarrow> verror \<Rightarrow> int" where
  "py_hash hp hi self =
     (let h = ValidationError_hash' hp hi self in if h = - 1 then - 2 else h)"

definition ValidationError_eq :: "(path \<Rightarrow> int) \<Rightarrow> (int \<Rightarrow> int) \<Rightarrow> verror \<Rightarrow> verror \<Rightarrow> bool" where
  "ValidationError_eq hp hi self other = (py_hash hp hi self = py_hash hp hi other)"

definition field :: "verror \<Rightarrow> seg option" where
  "field e = (if document_path e \<noteq> [] then Some (last (document_path e)) else None)"

section \<open>Python primitives used by the handler\<close>

text \<open>\<open>str(n)\<close> for an integer: decimal digits, with a leading minus sign.\<close>

function str_nat :: "nat \<Rightarrow> string" where
  "str_nat n = (if n < 10 then [''0123456789'' ! n]
                else str_nat (n div 10) @ [''0123456789'' ! (n mod 10)])"
  by pat_completeness auto
termination
  by (relation "measure id") auto

declare str_nat.simps [simp del]

definition str_int :: "int \<Rightarrow> string" where
  "str_int i = (if i < 0 then CHR ''-'' # str_nat (nat (- i)) else str_nat (nat i))"

fun str_val :: "val \<Rightarrow> string" where
  "str_val VNone = ''None''"
| "str_val (VStr s) = s"
| "str_val (VInt i) = str_int i"

fun str_seg :: "seg \<Rightarrow> string" where
  "str_seg (SStr s) = s"
| "str_seg (SInt i) = str_int i"

text \<open>\<open>xs[k:]\<close>: a negative start counts from the end and is clipped at the front.\<close>

definition py_slice_from :: "int \<Rightarrow> 'a list \<Rightarrow> 'a list" where
  "py_slice_from k xs =
     (if k < 0 then drop (nat (int (length xs) + k)) xs else drop (nat k) xs)"

text \<open>
  Loops whose body may raise: the first exception ends the loop. \<open>mapM_err\<close> collects
  the results of the body, \<open>foldM_err\<close> threads a state through it.
\<close>

fun mapM_err :: "('a \<Rightarrow> 'e + 'b) \<Rightarrow> 'a list \<Rightarrow> 'e + 'b list" where
  "mapM_err f [] = Inr []"
| "mapM_err f (x # xs) =
     (case f x of Inl e \<Rightarrow> Inl e
      | Inr y \<Rightarrow> (case mapM_err f xs of Inl e \<Rightarrow> Inl e | Inr ys \<Rightarrow> Inr (y # ys)))"

fun foldM_err :: "('s \<Rightarrow> 'a \<Rightarrow> 'e + 's) \<Rightarrow> 's \<Rightarrow> 'a list \<Rightarrow> 'e + 's" where
  "foldM_err f s [] = Inr s"
| "foldM_err f s (x # xs) = (case f s x of Inl e \<Rightarrow> Inl e | Inr s' \<Rightarrow> foldM_err f s' xs)"

lemma mapM_err_cong [fundef_cong]:
  "xs = ys \<Longrightarrow> (\<And>x. x \<in> set ys \<Longrightarrow> f x = g x) \<Longrightarrow> mapM_err f xs = mapM_err g ys"
  by (induction ys arbitrary: xs) (auto split: sum.splits)

lemma foldM_err_cong [fundef_cong]:
  "xs = ys \<Longrightarrow> s = t \<Longrightarrow> (\<And>x u. x \<in> set ys \<Longrightarrow> f u x = g u x)
   \<Longrightarrow> foldM_err f s xs = foldM_err g t ys"
  by (induction ys arbitrary: xs s t) (auto split: sum.splits)

text \<open>
  A \<open>dict\<close> keeps insertion order: an association list, in which assigning to a key
  that is present replaces its value in place and a new key goes to the end.
\<close>

fun dict_set :: "('k \<times> 'v) list \<Rightarrow> 'k \<Rightarrow> 'v \<Rightarrow> ('k \<times> 'v) list" where
  "dict_set [] k v = [(k, v)]"
| "dict_set ((k', v') # kvs) k v =
     (if k' = k then (k', v) # kvs else (k', v') # dict_set kvs k v)"

definition dict_update :: "('k \<times> 'v) list \<Rightarrow> ('k \<times> 'v) list \<Rightarrow> ('k \<times> 'v) list" where
  "dict_update d other = fold (\<lambda>(k, v) d'. dict_set d' k v) other d"

section \<open>BasicErrorHandler\<close>

text \<open>
  The working tree \<open>self.tree\<close> maps a field to a list whose entries are message
  strings and sub-trees; the lists the handler builds end with one sub-tree.
\<close>

datatype item = Msg string | Sub "(seg \<times> item list) list"

type_synonym tree = "(seg \<times> item list) list"

text \<open>
  The message catalogue. A template is kept as its sequence of literal pieces and
  replacement fields: \<open>{0}\<close> is \<open>Pos 0\<close>, and \<open>{constraint}\<close>, \<open>{field}\<close>, \<open>{value}\<close>
  are the three named fields \<open>str.format\<close> is given.
\<close>

datatype piece = Lit string | Pos nat | Constraint | Field | Value

definition messages :: "(int \<times> piece list) list" where
  "messages =
    [(0x00, [Pos 0]),
     (0x01, [Lit ''document is missing'']),
     (0x02, [Lit ''required field'']),
     (0x03, [Lit ''unknown field'']),
     (0x04, [Lit ''field '', Lit [CHR 0x27], Pos 0, Lit [CHR 0x27], Lit '' is required'']),
     (0x05, [Lit ''depends on these values: '', Constraint]),
     (0x06, [Pos 0, Lit '' must not be present with '', Lit [CHR 0x27], Field, Lit [CHR 0x27]]),
     (0x21, [Lit [CHR 0x27], Pos 0, Lit [CHR 0x27], Lit '' is not a document, must be a dict'']),
     (0x22, [Lit ''empty values not allowed'']),
     (0x23, [Lit ''null value not allowed'']),
     (0x24, [Lit ''must be of '', Constraint, Lit '' type'']),
     (0x26, [Lit ''length of list should be '', Constraint, Lit '', it is '', Pos 0]),
     (0x27, [Lit ''min length is '', Constraint]),
     (0x28, [Lit ''max length is '', Constraint]),
     (0x41, [Lit ''value does not match regex '', Lit [CHR 0x27], Constraint, Lit [CHR 0x27]]),
     (0x42, [Lit ''min value is '', Constraint]),
     (0x43, [Lit ''max value is '', Constraint]),
     (0x44, [Lit ''unallowed value '', Value]),
     (0x45, [Lit ''unallowed values '', Pos 0]),
     (0x46, [Lit ''unallowed value '', Value]),
     (0x47, [Lit ''unallowed values '', Pos 0]),
     (0x48, [Lit ''missing members '', Pos 0]),
     (0x61, [Lit ''field '', Lit [CHR 0x27], Field, Lit [CHR 0x27], Lit '' cannot be coerced: '', Pos 0]),
     (0x62, [Lit ''field '', Lit [CHR 0x27], Field, Lit [CHR 0x27], Lit '' cannot be renamed: '', Pos 0]),
     (0x63, [Lit ''field is read-only'']),
     (0x64, [Lit ''default value for '', Lit [CHR 0x27], Field, Lit [CHR 0x27], Lit '' cannot be set: '', Pos 0]),
     (0x81, [Lit ''mapping doesn'', Lit [CHR 0x27], Lit ''t validate subschema: '', Pos 0]),
     (0x82, [Lit ''one or more sequence-items don'', Lit [CHR 0x27], Lit ''t validate: '', Pos 0]),
     (0x83, [Lit ''one or more keys of a mapping  don'', Lit [CHR 0x27], Lit ''t validate: '', Pos 0]),
     (0x84, [Lit ''one or more values in a mapping don'', Lit [CHR 0x27], Lit ''t validate: '', Pos 0]),
     (0x85, [Lit ''one or more sequence-items don'', Lit [CHR 0x27], Lit ''t validate: '', Pos 0]),
     (0x91, [Lit ''one or more definitions validate'']),
     (0x92, [Lit ''none or more than one rule validate'']),
     (0x93, [Lit ''no definitions validate'']),
     (0x94, [Lit ''one or more definitions don'', Lit [CHR 0x27], Lit ''t validate''])]"

text \<open>
  \<open>str\<close> of an entry of \<open>info\<close>. The text of a list of errors embeds the address of
  every error (\<open>__repr__\<close> prints \<open>hex(id(self))\<close>), so it is not a function of the
  errors' contents: it is the parameter \<open>rp\<close>.
\<close>

fun str_info :: "(verror list \<Rightarrow> string) \<Rightarrow> info_item \<Rightarrow> string" where
  "str_info rp (Payload v) = str_val v"
| "str_info rp (Children es) = rp es"

definition str_field :: "seg option \<Rightarrow> string" where
  "str_field f = (case f of None \<Rightarrow> ''None'' | Some s \<Rightarrow> str_seg s)"

fun format_piece :: "(verror list \<Rightarrow> string) \<Rightarrow> seg option \<Rightarrow> verror \<Rightarrow> piece \<Rightarrow> pyerr + string" where
  "format_piece rp fld error (Lit s) = Inr s"
| "format_piece rp fld error (Pos n) =
     (if n < length (info error) then Inr (str_info rp (info error ! n)) else Inl IndexError)"
| "format_piece rp fld error Constraint = Inr (str_val (constraint error))"
| "format_piece rp fld error Field = Inr (str_field fld)"
| "format_piece rp fld error Value = Inr (str_val (value' error))"

definition format_message :: "(verror list \<Rightarrow> string) \<Rightarrow> seg option \<Rightarrow> verror \<Rightarrow> pyerr + string" where
  "format_message rp fld error =
     (case map_of messages (code error) of
        None \<Rightarrow> Inl KeyError
      | Some template \<Rightarrow>
          (case mapM_err (format_piece rp fld error) template of
             Inl e \<Rightarrow> Inl e
           | Inr parts \<Rightarrow> Inr (concat parts)))"

text \<open>
  \<open>_insert_error\<close>. The recursive call runs on a handler built over a shallow copy of
  the sub-tree, whose lists are shared with the sub-tree itself; \<open>subtree.update\<close> then
  stores the new handler's tree back. A sub-tree slot that holds a string instead of a
  dict fails as Python does: the empty string has no \<open>update\<close>, a non-empty one cannot
  be indexed by a field.
\<close>

fun insert_error :: "tree \<Rightarrow> path \<Rightarrow> item \<Rightarrow> pyerr + tree" where
  "insert_error tree [] node = Inl IndexError"
| "insert_error tree [fld] node =
     (case map_of tree fld of
        Some l \<Rightarrow>
          (if l = [] then Inl IndexError
           else Inr (dict_set tree fld (butlast l @ [node, last l])))
      | None \<Rightarrow> Inr (dict_set tree fld [node, Sub []]))"
| "insert_error tree (fld # rest) node =
     (let tree1 = (if map_of tree fld = None then dict_set tree fld [Sub []] else tree);
          l = (case map_of tree fld of None \<Rightarrow> [Sub []] | Some l \<Rightarrow> l)
      in if l = [] then Inl IndexError
         else (case last l of
                 Msg s \<Rightarrow> if s = [] then Inl AttributeError else Inl TypeError
               | Sub subtree \<Rightarrow>
                   (case insert_error subtree rest node of
                      Inl e \<Rightarrow> Inl e
                    | Inr new_tree \<Rightarrow>
                        Inr (dict_set tree1 fld
                               (butlast l @ [Sub (dict_update subtree new_tree)])))))"

lemma size_last_Sub:
  assumes "error_list \<noteq> []" and "last error_list = Sub subtree" and "(key, l) \<in> set subtree"
  shows "size_list size l < size_list size error_list"
proof -
  have "last error_list \<in> set error_list" using assms(1) by simp
  then have "size (last error_list) < Suc (size_list size error_list)"
    by (simp add: size_list_estimation' less_Suc_eq_le)
  moreover have "size_list size l < size (Sub subtree)"
    using assms(3) by (induction subtree) auto
  ultimately show ?thesis using assms(2) by simp
qed

text \<open>\<open>_purge_empty_dicts\<close> and \<open>pretty_tree\<close>, on the deep copy of the tree.\<close>

function purge_empty_dicts :: "item list \<Rightarrow> pyerr + item list" where
  "purge_empty_dicts error_list =
     (if error_list = [] then Inl IndexError
      else (case last error_list of
              Msg s \<Rightarrow> if s = [] then Inr (butlast error_list) else Inl TypeError
            | Sub subtree \<Rightarrow>
                if subtree = [] then Inr (butlast error_list)
                else (case mapM_err (\<lambda>(key, l). case purge_empty_dicts l of
                                                    Inl e \<Rightarrow> Inl e
                                                  | Inr l' \<Rightarrow> Inr (key, l')) subtree of
                        Inl e \<Rightarrow> Inl e
                      | Inr subtree' \<Rightarrow> Inr (butlast error_list @ [Sub subtree']))))"
  by pat_completeness auto

termination
  by (relation "measure (size_list size)") (auto intro: size_last_Sub)

declare purge_empty_dicts.simps [simp del]

definition pretty_tree :: "tree \<Rightarrow> pyerr + tree" where
  "pretty_tree tree =
     mapM_err (\<lambda>(fld, l). case purge_empty_dicts l of
                             Inl e \<Rightarrow> Inl e
                           | Inr l' \<Rightarrow> Inr (fld, l')) tree"

text \<open>
  What a report holds at a path. \<open>messages_at\<close> follows the path the way
  \<open>_insert_error\<close> does: through the sub-tree that ends the list of every field but
  the last, and it gives the messages in the list of the last field, in order. A report
  is well formed when its keys are distinct and every list ends with a sub-tree that is
  well formed in turn: these are the trees \<open>_insert_error\<close> builds from the empty one.
\<close>

definition msgs_of :: "item list \<Rightarrow> string list" where
  "msgs_of l = concat (map (\<lambda>x. case x of Msg s \<Rightarrow> [s] | Sub st \<Rightarrow> []) l)"

fun messages_at :: "tree \<Rightarrow> path \<Rightarrow> string list" where
  "messages_at t [] = []"
| "messages_at t [fld] = (case map_of t fld of None \<Rightarrow> [] | Some l \<Rightarrow> msgs_of l)"
| "messages_at t (fld # rest) =
     (case map_of t fld of
        None \<Rightarrow> []
      | Some l \<Rightarrow>
          (if l = [] then []
           else (case last l of Msg s \<Rightarrow> [] | Sub subtree \<Rightarrow> messages_at subtree rest)))"

lemma size_entry_tree:
  assumes "(key, l) \<in> set t" and "l \<noteq> []" and "last l = Sub subtree"
  shows "size_list (size_prod (\<lambda>x. 0) (size_list size)) subtree
           < size_list (size_prod (\<lambda>x. 0) (size_list size)) t"
proof -
  have "last l \<in> set l" using assms(2) by simp
  then have "size (last l) \<le> size_list size l"
    by (simp add: size_list_estimation')
  then have a: "size_list (size_prod (\<lambda>x. 0) (size_list size)) subtree < size_list size l"
    using assms(3) by simp
  have "size_list size l < size_list (size_prod (\<lambda>x. 0) (size_list size)) t"
    using assms(1) by (induction t) auto
  with a show ?thesis by simp
qed

function wf_report :: "tree \<Rightarrow> bool" where
  "wf_report t =
     (distinct (map fst t)
      \<and> (\<forall>kl\<in>set t.
            if snd kl = [] then False
            else (case last (snd kl) of Msg s \<Rightarrow> False | Sub subtree \<Rightarrow> wf_report subtree)))"
  by pat_completeness auto
termination
  by (relation "measure (size_list (size_prod (\<lambda>x. 0) (size_list size)))")
     (auto intro: size_entry_tree)

declare wf_report.simps [simp del]

section \<open>Child errors\<close>

text \<open>
  \<open>child_errors\<close> is \<open>info[0]\<close> for a group error and \<open>None\<close> otherwise. Looping over
  it fails on \<open>None\<close> and on an integer (not iterable); a non-empty string yields
  characters, and the first attribute read on one fails.
\<close>

definition child_errors :: "verror \<Rightarrow> pyerr + info_item option" where
  "child_errors e =
     (if is_group_error e
      then (case info e of [] \<Rightarrow> Inl IndexError | x # _ \<Rightarrow> Inr (Some x))
      else Inr None)"

fun iter_errors :: "info_item option \<Rightarrow> pyerr + verror list" where
  "iter_errors None = Inl TypeError"
| "iter_errors (Some (Children es)) = Inr es"
| "iter_errors (Some (Payload VNone)) = Inl TypeError"
| "iter_errors (Some (Payload (VInt i))) = Inl TypeError"
| "iter_errors (Some (Payload (VStr s))) = (if s = [] then Inr [] else Inl AttributeError)"

definition for_child_errors :: "verror \<Rightarrow> pyerr + verror list" where
  "for_child_errors e = (case child_errors e of Inl x \<Rightarrow> Inl x | Inr c \<Rightarrow> iter_errors c)"

text \<open>
  \<open>definitions_errors\<close>: the children of a logic error, bucketed by the schema path
  segment that follows the logic error's own schema path. The buckets hold the child
  objects themselves; a reference is kept as the child's position in \<open>child_errors\<close>
  together with the child.
\<close>

fun bucket_append :: "('k \<times> 'v list) list \<Rightarrow> 'k \<Rightarrow> 'v \<Rightarrow> ('k \<times> 'v list) list" where
  "bucket_append [] k v = [(k, [v])]"
| "bucket_append ((k', vs) # kvs) k v =
     (if k' = k then (k', vs @ [v]) # kvs else (k', vs) # bucket_append kvs k v)"

fun definitions_buckets ::
  "nat \<Rightarrow> (nat \<times> verror) list \<Rightarrow> (seg \<times> (nat \<times> verror) list) list
   \<Rightarrow> pyerr + (seg \<times> (nat \<times> verror) list) list" where
  "definitions_buckets n [] result = Inr result"
| "definitions_buckets n ((p, error) # rest) result =
     (if n < length (schema_path error)
      then definitions_buckets n rest (bucket_append result (schema_path error ! n) (p, error))
      else Inl IndexError)"

definition definitions_errors ::
  "verror \<Rightarrow> pyerr + (seg \<times> (nat \<times> verror) list) list option" where
  "definitions_errors e =
     (if \<not> is_logic_error e then Inr None
      else (case for_child_errors e of
              Inl x \<Rightarrow> Inl x
            | Inr es \<Rightarrow>
                (case definitions_buckets (length (schema_path e)) (enumerate 0 es) [] of
                   Inl x \<Rightarrow> Inl x
                 | Inr result \<Rightarrow> Inr (Some result))))"

section \<open>Path rewriting\<close>

text \<open>Assignment to \<open>document_path\<close>, and to the child list held at \<open>info[0]\<close>.\<close>

fun set_document_path :: "path \<Rightarrow> verror \<Rightarrow> verror" where
  "set_document_path p (ValidationError dp sp c r k v i) = ValidationError p sp c r k v i"

fun set_children :: "verror list \<Rightarrow> verror \<Rightarrow> verror" where
  "set_children es (ValidationError dp sp c r k v (Children old # i)) =
     ValidationError dp sp c r k v (Children es # i)"
| "set_children es e = e"

text \<open>The number of errors in an error, itself included: the measure of the recursions.\<close>

fun esize :: "verror \<Rightarrow> nat" and isize :: "info_item \<Rightarrow> nat" where
  "esize (ValidationError dp sp c r k v i) = Suc (sum_list (map isize i))"
| "isize (Payload v) = 0"
| "isize (Children es) = sum_list (map esize es)"

lemma esize_set_document_path [simp]: "esize (set_document_path p e) = esize e"
  by (cases e) simp

lemma esize_member: "c \<in> set es \<Longrightarrow> esize c \<le> sum_list (map esize es)"
  by (induction es) auto

lemma esize_child:
  assumes "for_child_errors e = Inr es" and "c \<in> set es"
  shows "esize c < esize e"
proof -
  obtain dp sp cd r k v i where e: "e = ValidationError dp sp cd r k v i" by (cases e)
  from assms(1) obtain x i' where i: "i = x # i'" and it: "iter_errors (Some x) = Inr es"
    by (auto simp: for_child_errors_def child_errors_def e split: if_splits list.splits)
  from it assms(2) have "x = Children es"
    by (cases x; cases "case x of Payload v \<Rightarrow> v") (auto split: if_splits)
  then show ?thesis using esize_member [OF assms(2)] by (simp add: e i)
qed

lemma bucket_append_members:
  "(i, pcs) \<in> set (bucket_append b k v) \<Longrightarrow> pc \<in> set pcs \<Longrightarrow>
   pc = v \<or> (\<exists>i' pcs'. (i', pcs') \<in> set b \<and> pc \<in> set pcs')"
  by (induction b k v rule: bucket_append.induct) (fastforce split: if_splits)+

lemma definitions_buckets_members:
  "definitions_buckets n xs acc = Inr b \<Longrightarrow> (i, pcs) \<in> set b \<Longrightarrow> pc \<in> set pcs \<Longrightarrow>
   pc \<in> set xs \<or> (\<exists>i' pcs'. (i', pcs') \<in> set acc \<and> pc \<in> set pcs')"
proof (induction n xs acc rule: definitions_buckets.induct)
  case (1 n result)
  then show ?case by auto
next
  case (2 n p error rest result)
  from "2.prems"(1) have lt: "n < length (schema_path error)"
    and eq: "definitions_buckets n rest (bucket_append result (schema_path error ! n) (p, error)) = Inr b"
    by (auto split: if_splits)
  from "2.IH" [OF lt eq "2.prems"(2,3)]
  show ?case using bucket_append_members by fastforce
qed

lemma definitions_errors_child:
  assumes "definitions_errors e = Inr (Some b)" and "(i, pcs) \<in> set b" and "(p, c) \<in> set pcs"
  shows "esize c < esize e"
proof -
  from assms(1) obtain es where es: "for_child_errors e = Inr es"
    and b: "definitions_buckets (length (schema_path e)) (enumerate 0 es) [] = Inr b"
    by (auto simp: definitions_errors_def split: if_splits sum.splits)
  from definitions_buckets_members [OF b assms(2,3)] have "(p, c) \<in> set (enumerate 0 es)"
    by simp
  then have "c \<in> set es" by (auto simp: in_set_enumerate_eq)
  with es show ?thesis by (rule esize_child)
qed

text \<open>
  \<open>'%s definition %s' % (error.rule, i)\<close>: \<open>%s\<close> prints a missing rule as \<open>None\<close>.
\<close>

definition nodename :: "string option \<Rightarrow> seg \<Rightarrow> string" where
  "nodename r i = (case r of None \<Rightarrow> ''None'' | Some s \<Rightarrow> s) @ '' definition '' @ str_seg i"

text \<open>
  The rewriting pass works on the deep copy that \<open>add\<close> makes. The model is a value
  to value function: it returns the copy as rewritten. A child of a logic error is
  written back at its position in \<open>child_errors\<close>; the buckets are visited in the
  order of the dictionary, so the first exception is the one Python raises.

  A value does not tell whether two entries of a child list are one object or two equal
  ones, and the function rewrites every entry once. That is what the code does when the
  objects below the error are distinct. An object that occurs twice is rewritten twice
  by the code, in place; the store of section \<open>Error objects in a store\<close> follows
  that, and what depends on it is stated there.
\<close>

function rewrite_error_path :: "verror \<Rightarrow> int \<Rightarrow> pyerr + verror"
  and rewrite_group_error_path :: "verror \<Rightarrow> int \<Rightarrow> pyerr + verror"
  and rewrite_logic_error_path :: "verror \<Rightarrow> int \<Rightarrow> pyerr + verror" where
  "rewrite_error_path error offset =
     (if is_logic_error error then rewrite_logic_error_path error offset
      else if is_group_error error then rewrite_group_error_path error offset
      else Inr error)"
| "rewrite_group_error_path error offset =
     (let child_start = int (length (document_path error)) - offset in
      case for_child_errors error of
        Inl x \<Rightarrow> Inl x
      | Inr es \<Rightarrow>
          (case mapM_err
                  (\<lambda>child_error.
                     rewrite_error_path
                       (set_document_path
                          (document_path error
                             @ py_slice_from child_start (document_path child_error))
                          child_error)
                       offset) es of
             Inl x \<Rightarrow> Inl x
           | Inr es' \<Rightarrow> Inr (set_children es' error)))"
| "rewrite_logic_error_path error offset =
     (let child_start = int (length (document_path error)) - offset in
      case definitions_errors error of
        Inl x \<Rightarrow> Inl x
      | Inr None \<Rightarrow> Inl AttributeError
      | Inr (Some buckets) \<Rightarrow>
          (case mapM_err
                  (\<lambda>(i, definition_errors).
                     let path = document_path error @ [SStr (nodename (rule error) i)] in
                     mapM_err
                       (\<lambda>(p, child_error).
                          case rewrite_error_path
                                 (set_document_path
                                    (path @ py_slice_from child_start (document_path child_error))
                                    child_error)
                                 (offset + 1) of
                            Inl x \<Rightarrow> Inl x
                          | Inr child' \<Rightarrow> Inr (p, child'))
                       definition_errors) buckets of
             Inl x \<Rightarrow> Inl x
           | Inr written \<Rightarrow>
               (case for_child_errors error of
                  Inl x \<Rightarrow> Inl x
                | Inr es \<Rightarrow>
                    Inr (if concat written = [] then error
                         else set_children (fold (\<lambda>(p, child') es'. es'[p := child'])
                                                 (concat written) es) error))))"
  by pat_completeness auto
termination
  by (relation "measure (\<lambda>x. case x of
                    Inl (e, _) \<Rightarrow> 2 * esize e + 1
                  | Inr (Inl (e, _)) \<Rightarrow> 2 * esize e
                  | Inr (Inr (e, _)) \<Rightarrow> 2 * esize e)")
     (auto dest: esize_child definitions_errors_child)

declare rewrite_error_path.simps [simp del] rewrite_group_error_path.simps [simp del]
  rewrite_logic_error_path.simps [simp del]

lemma esize_info_child:
  assumes "Children es \<in> set (info e)" and "c \<in> set es"
  shows "esize c < esize e"
proof -
  obtain dp sp cd r k v i where e: "e = ValidationError dp sp cd r k v i" by (cases e)
  have "isize x \<le> sum_list (map isize i)" if "x \<in> set i" for x
    using that by (induction i) auto
  from this [of "Children es"] assms(1) have "isize (Children es) \<le> sum_list (map isize i)"
    by (simp add: e)
  with esize_member [OF assms(2)] show ?thesis by (simp add: e)
qed

text \<open>
  The input contract on payloads: only a group error holds lists of errors in \<open>info\<close>,
  in the error itself and in every nested error.
\<close>

function lists_in_groups :: "verror \<Rightarrow> bool" where
  "lists_in_groups e =
     ((is_group_error e \<or> (\<forall>x\<in>set (info e). case x of Payload v \<Rightarrow> True | Children es \<Rightarrow> False))
      \<and> (\<forall>x\<in>set (info e). case x of Payload v \<Rightarrow> True
                              | Children es \<Rightarrow> \<forall>c\<in>set es. lists_in_groups c))"
  by pat_completeness auto
termination
  by (relation "measure esize") (auto dest: esize_info_child)

declare lists_in_groups.simps [simp del]

section \<open>Insertion\<close>

text \<open>
  \<open>_insert_group_error\<close> and \<open>_insert_logic_error\<close>. The handler's state is
  \<open>self.tree\<close>; each function takes the tree and returns the tree it leaves, or the
  exception it raises. The arguments of \<open>_insert_error\<close> are evaluated first, so a
  failing \<open>_format_message\<close> raises before anything is inserted.
\<close>

function insert_group_error :: "(verror list \<Rightarrow> string) \<Rightarrow> tree \<Rightarrow> verror \<Rightarrow> pyerr + tree"
  and insert_logic_error :: "(verror list \<Rightarrow> string) \<Rightarrow> tree \<Rightarrow> verror \<Rightarrow> pyerr + tree" where
  "insert_group_error rp tree error =
     (case for_child_errors error of
        Inl x \<Rightarrow> Inl x
      | Inr es \<Rightarrow>
          foldM_err
            (\<lambda>tree child_error.
               if is_logic_error child_error then insert_logic_error rp tree child_error
               else if is_group_error child_error then insert_group_error rp tree child_error
               else (case format_message rp (field child_error) child_error of
                       Inl x \<Rightarrow> Inl x
                     | Inr m \<Rightarrow> insert_error tree (document_path child_error) (Msg m)))
            tree es)"
| "insert_logic_error rp tree error =
     (let fld = field error in
      case format_message rp fld error of
        Inl x \<Rightarrow> Inl x
      | Inr m \<Rightarrow>
          (case insert_error tree (document_path error) (Msg m) of
             Inl x \<Rightarrow> Inl x
           | Inr tree1 \<Rightarrow>
               (case definitions_errors error of
                  Inl x \<Rightarrow> Inl x
                | Inr None \<Rightarrow> Inl AttributeError
                | Inr (Some buckets) \<Rightarrow>
                    foldM_err
                      (\<lambda>tree (i, definition_errors).
                         foldM_err
                           (\<lambda>tree (p, child_error).
                              if is_logic_error child_error
                              then insert_logic_error rp tree child_error
                              else if is_group_error child_error
                              then insert_group_error rp tree child_error
                              else (case format_message rp fld child_error of
                                      Inl x \<Rightarrow> Inl x
                                    | Inr m \<Rightarrow>
                                        insert_error tree (document_path child_error) (Msg m)))
                           tree definition_errors)
                      tree1 buckets)))"
  by pat_completeness auto
termination
  by (relation "measure (\<lambda>x. case x of Inl (_, _, e) \<Rightarrow> esize e | Inr (_, _, e) \<Rightarrow> esize e)")
     (auto dest: esize_child definitions_errors_child)

declare insert_group_error.simps [simp del] insert_logic_error.simps [simp del]

text \<open>
  \<open>add\<close>: \<open>deepcopy\<close> gives a copy with the contents of the error, the rewriting pass
  runs on the copy, and the copy is dispatched on its classification (\<open>add_dispatch\<close>
  is the \<open>if\<close> chain that ends \<open>add\<close>).
\<close>

definition add_dispatch :: "(verror list \<Rightarrow> string) \<Rightarrow> tree \<Rightarrow> verror \<Rightarrow> pyerr + tree" where
  "add_dispatch rp tree error =
     (if is_logic_error error then insert_logic_error rp tree error
      else if is_group_error error then insert_group_error rp tree error
      else if map_of messages (code error) \<noteq> None
      then (case format_message rp (field error) error of
              Inl x \<Rightarrow> Inl x
            | Inr m \<Rightarrow> insert_error tree (document_path error) (Msg m))
      else Inr tree)"

definition add :: "(verror list \<Rightarrow> string) \<Rightarrow> tree \<Rightarrow> verror \<Rightarrow> pyerr + tree" where
  "add rp tree error0 =
     (case rewrite_error_path error0 0 of
        Inl x \<Rightarrow> Inl x
      | Inr error \<Rightarrow> add_dispatch rp tree error)"

definition extend :: "(verror list \<Rightarrow> string) \<Rightarrow> tree \<Rightarrow> verror list \<Rightarrow> pyerr + tree" where
  "extend rp tree errors = foldM_err (add rp) tree errors"

definition clear :: "tree \<Rightarrow> tree" where
  "clear tree = []"

text \<open>
  \<open>__call__\<close> returns the pretty tree; the handler keeps the working tree. The result
  is the pair of the tree kept and the report returned.
\<close>

definition call :: "(verror list \<Rightarrow> string) \<Rightarrow> tree \<Rightarrow> verror list \<Rightarrow> pyerr + (tree \<times> tree)" where
  "call rp tree errors =
     (case extend rp (clear tree) errors of
        Inl x \<Rightarrow> Inl x
      | Inr tree' \<Rightarrow>
          (case pretty_tree tree' of Inl x \<Rightarrow> Inl x | Inr pretty \<Rightarrow> Inr (tree', pretty)))"

section \<open>ErrorTree\<close>

text \<open>
  A node holds its path, the errors that end at it, and its descendants by path
  segment. The root (\<open>ErrorTree\<close>) has the fixed depth \<open>0\<close> and the empty path; the
  back references \<open>parent_node\<close> and \<open>tree_root\<close> are not stored: the root is handed
  to the functions that need it. \<open>tree_type\<close> selects the path a tree is indexed by.
\<close>

datatype tree_type = Document | Schema

fun path_of :: "tree_type \<Rightarrow> verror \<Rightarrow> path" where
  "path_of Document error = document_path error"
| "path_of Schema error = schema_path error"

datatype node = ErrorTreeNode (path: path) (errors: "verror list") (descendants: "(seg \<times> node) list")

datatype ErrorTree = ErrorTree (tree_errors: "verror list") (tree_descendants: "(seg \<times> node) list")

text \<open>
  \<open>__lt__\<close> compares document paths, then schema paths, with \<open>compare_paths_lt\<close> of
  \<open>cerberus.utils\<close>, which is not part of this module: it is the parameter \<open>lt\<close>.
  \<open>list.sort()\<close> is a stable sort by \<open>__lt__\<close>; it is modelled by stable insertion,
  which gives the list \<open>list.sort()\<close> gives when \<open>__lt__\<close> is a strict weak order.
  For another \<open>lt\<close> the two can differ in the order of the elements, never in the
  elements; only the membership of the sorted list is used below.
\<close>

definition ValidationError_lt :: "(path \<Rightarrow> path \<Rightarrow> bool) \<Rightarrow> verror \<Rightarrow> verror \<Rightarrow> bool" where
  "ValidationError_lt lt self other =
     (if document_path self \<noteq> document_path other
      then lt (document_path self) (document_path other)
      else lt (schema_path self) (schema_path other))"

fun insert_sorted :: "(path \<Rightarrow> path \<Rightarrow> bool) \<Rightarrow> verror \<Rightarrow> verror list \<Rightarrow> verror list" where
  "insert_sorted lt x [] = [x]"
| "insert_sorted lt x (y # ys) =
     (if ValidationError_lt lt y x then y # insert_sorted lt x ys else x # y # ys)"

definition py_sort :: "(path \<Rightarrow> path \<Rightarrow> bool) \<Rightarrow> verror list \<Rightarrow> verror list" where
  "py_sort lt xs = foldr (insert_sorted lt) xs []"

text \<open>The number of nodes below a list of descendants.\<close>

fun nsize :: "node \<Rightarrow> nat" where
  "nsize (ErrorTreeNode p es ds) = Suc (sum_list (map (\<lambda>(k, n). nsize n) ds))"

definition dsize :: "(seg \<times> node) list \<Rightarrow> nat" where
  "dsize ds = sum_list (map (\<lambda>(k, n). nsize n) ds)"

lemma dsize_child: "map_of ds key = Some n \<Longrightarrow> dsize (descendants n) < dsize ds"
proof (induction ds)
  case Nil
  then show ?case by simp
next
  case (Cons a ds)
  obtain k m where a: "a = (k, m)" by (cases a)
  show ?case
  proof (cases "k = key")
    case True
    with Cons.prems a have "m = n" by simp
    then show ?thesis by (cases n) (simp add: dsize_def a)
  next
    case False
    with Cons a show ?thesis by (simp add: dsize_def)
  qed
qed

text \<open>
  \<open>ErrorTreeNode.add\<close>, for the node of depth \<open>depth\<close> with the given descendants; it
  returns the descendants as updated. The loop over the children of a group error is
  the last thing the innermost call does, and the callers do nothing after the call
  returns; the loop adds to the root, so it is run by \<open>ErrorTree_add\<close> below, after the
  descendants have been updated.
\<close>

function node_add ::
  "tree_type \<Rightarrow> (path \<Rightarrow> path \<Rightarrow> bool) \<Rightarrow> nat \<Rightarrow> (seg \<times> node) list \<Rightarrow> verror
   \<Rightarrow> pyerr + (seg \<times> node) list" where
  "node_add tt lt depth descs error =
     (let error_path = path_of tt error in
      if length error_path \<le> depth then Inl IndexError
      else
        let key = error_path ! depth;
            node = (case map_of descs key of
                      None \<Rightarrow> ErrorTreeNode (take (depth + 1) error_path) [] []
                    | Some n \<Rightarrow> n)
        in if length error_path = depth + 1
           then Inr (dict_set descs key
                       (ErrorTreeNode (path node) (py_sort lt (errors node @ [error]))
                          (descendants node)))
           else (case node_add tt lt (length (path node)) (descendants node) error of
                   Inl x \<Rightarrow> Inl x
                 | Inr descs' \<Rightarrow>
                     Inr (dict_set descs key (ErrorTreeNode (path node) (errors node) descs'))))"
  by pat_completeness auto
termination
proof (relation "measures [\<lambda>(tt, lt, depth, descs, error). dsize descs,
                           \<lambda>(tt, lt, depth, descs, error). length (path_of tt error) - depth]",
       goal_cases)
  case 1
  then show ?case by simp
next
  case (2 tt lt depth descs error error_path key node)
  show ?case
  proof (cases "map_of descs key")
    case None
    with 2 show ?thesis by (auto simp: dsize_def)
  next
    case (Some n)
    with 2 dsize_child [OF Some] show ?thesis by auto
  qed
qed

declare node_add.simps [simp del]

text \<open>
  \<open>ErrorTree.add\<close>. An error with the empty path goes to the root's own list. Any
  other error is added below the root by \<open>ErrorTreeNode.add\<close>, which then adds the
  children of a group error to the root.
\<close>

function ErrorTree_add ::
  "tree_type \<Rightarrow> (path \<Rightarrow> path \<Rightarrow> bool) \<Rightarrow> ErrorTree \<Rightarrow> verror \<Rightarrow> pyerr + ErrorTree" where
  "ErrorTree_add tt lt self error =
     (if path_of tt error = []
      then Inr (ErrorTree (py_sort lt (tree_errors self @ [error])) (tree_descendants self))
      else (case node_add tt lt 0 (tree_descendants self) error of
              Inl x \<Rightarrow> Inl x
            | Inr descs \<Rightarrow>
                if is_group_error error
                then (case for_child_errors error of
                        Inl x \<Rightarrow> Inl x
                      | Inr es \<Rightarrow>
                          foldM_err (ErrorTree_add tt lt) (ErrorTree (tree_errors self) descs) es)
                else Inr (ErrorTree (tree_errors self) descs)))"
  by pat_completeness auto
termination
  by (relation "measure (\<lambda>(tt, lt, self, error). esize error)") (auto dest: esize_child)

declare ErrorTree_add.simps [simp del]

definition ErrorTree_init ::
  "tree_type \<Rightarrow> (path \<Rightarrow> path \<Rightarrow> bool) \<Rightarrow> verror list \<Rightarrow> pyerr + ErrorTree" where
  "ErrorTree_init tt lt es = foldM_err (ErrorTree_add tt lt) (ErrorTree [] []) es"

text \<open>\<open>fetch_node_from\<close> and \<open>fetch_errors_from\<close>; \<open>None\<close> is Python's \<open>None\<close>.\<close>

fun node_fetch :: "node \<Rightarrow> path \<Rightarrow> node option" where
  "node_fetch context [] = Some context"
| "node_fetch context (key # rest) =
     (case map_of (descendants context) key of
        None \<Rightarrow> None
      | Some n \<Rightarrow> node_fetch n rest)"

definition fetch_errors_from :: "ErrorTree \<Rightarrow> path \<Rightarrow> verror list" where
  "fetch_errors_from self p =
     (case p of
        [] \<Rightarrow> tree_errors self
      | key # rest \<Rightarrow>
          (case map_of (tree_descendants self) key of
             None \<Rightarrow> []
           | Some n \<Rightarrow> (case node_fetch n rest of None \<Rightarrow> [] | Some m \<Rightarrow> errors m)))"

text \<open>Well-formed trees: a node at depth \<open>k\<close> has a path of length \<open>k\<close>.\<close>

fun wf_node :: "nat \<Rightarrow> node \<Rightarrow> bool" where
  "wf_node k (ErrorTreeNode p es ds) = (length p = k \<and> (\<forall>kn\<in>set ds. wf_node (Suc k) (snd kn)))"

definition wf_tree :: "ErrorTree \<Rightarrow> bool" where
  "wf_tree t = (\<forall>kn\<in>set (tree_descendants t). wf_node 1 (snd kn))"

text \<open>
  Errors whose group errors carry a list of errors at \<open>info[0]\<close>, as far as a tree of
  type \<open>tt\<close> looks at them.
\<close>

function flattenable :: "tree_type \<Rightarrow> verror \<Rightarrow> bool" where
  "flattenable tt e =
     (if path_of tt e \<noteq> [] \<and> is_group_error e
      then (case for_child_errors e of Inl x \<Rightarrow> False | Inr es \<Rightarrow> \<forall>c\<in>set es. flattenable tt c)
      else True)"
  by pat_completeness auto
termination
  by (relation "measure (\<lambda>(tt, e). esize e)") (auto dest: esize_child)

declare flattenable.simps [simp del]

text \<open>
  The errors at a path below a node, and below a list of descendants: what
  \<open>fetch_errors_from\<close> returns, as a recursion on the path.
\<close>

fun node_errors_at :: "node \<Rightarrow> path \<Rightarrow> verror list" where
  "node_errors_at n [] = errors n"
| "node_errors_at n (key # rest) =
     (case map_of (descendants n) key of None \<Rightarrow> [] | Some m \<Rightarrow> node_errors_at m rest)"

definition descs_errors :: "(seg \<times> node) list \<Rightarrow> path \<Rightarrow> verror list" where
  "descs_errors ds p =
     (case p of [] \<Rightarrow> []
      | key # rest \<Rightarrow> (case map_of ds key of None \<Rightarrow> [] | Some m \<Rightarrow> node_errors_at m rest))"

section \<open>Error objects in a store\<close>

text \<open>
  For what depends on the identity of error objects (what \<open>add\<close> leaves of the
  caller's errors, and what it does to a copy that is reached twice), the errors are
  objects in a store:
  an address is an index into the list of objects, a new object goes to the end, and
  an entry of \<open>info\<close> that is a list of errors holds their addresses. The store
  functions take fuel; \<open>None\<close> means the fuel ran out (or an address points outside
  the store, which no function below produces).
\<close>

datatype hinfo = HPayload val | HChildren "nat list"

datatype hobj =
  HError (o_document_path: path) (o_schema_path: path) (o_code: int)
    (o_rule: "string option") (o_constraint: val) (o_value: val) (o_info: "hinfo list")

type_synonym store = "hobj list"

fun o_set_document_path :: "path \<Rightarrow> hobj \<Rightarrow> hobj" where
  "o_set_document_path p (HError dp sp c r k v i) = HError p sp c r k v i"

fun o_set_info :: "hinfo list \<Rightarrow> hobj \<Rightarrow> hobj" where
  "o_set_info i (HError dp sp c r k v old) = HError dp sp c r k v i"

definition o_is_group_error :: "hobj \<Rightarrow> bool" where
  "o_is_group_error e = (o_code e AND def_code ERROR_GROUP \<noteq> 0)"

definition o_is_logic_error :: "hobj \<Rightarrow> bool" where
  "o_is_logic_error e = (o_code e AND (def_code LOGICAL - def_code ERROR_GROUP) \<noteq> 0)"

definition o_child_errors :: "hobj \<Rightarrow> pyerr + hinfo option" where
  "o_child_errors e =
     (if o_is_group_error e
      then (case o_info e of [] \<Rightarrow> Inl IndexError | x # _ \<Rightarrow> Inr (Some x))
      else Inr None)"

fun o_iter_errors :: "hinfo option \<Rightarrow> pyerr + nat list" where
  "o_iter_errors None = Inl TypeError"
| "o_iter_errors (Some (HChildren es)) = Inr es"
| "o_iter_errors (Some (HPayload VNone)) = Inl TypeError"
| "o_iter_errors (Some (HPayload (VInt i))) = Inl TypeError"
| "o_iter_errors (Some (HPayload (VStr s))) = (if s = [] then Inr [] else Inl AttributeError)"

definition o_for_child_errors :: "hobj \<Rightarrow> pyerr + nat list" where
  "o_for_child_errors e = (case o_child_errors e of Inl x \<Rightarrow> Inl x | Inr c \<Rightarrow> o_iter_errors c)"

text \<open>
  \<open>copy.deepcopy\<close>, with its memo of the objects copied so far: the new object is
  created and entered in the memo, then its state is copied and stored in it.
\<close>

function (sequential) deepcopy :: "nat \<Rightarrow> store \<Rightarrow> (nat \<times> nat) list \<Rightarrow> nat \<Rightarrow> (store \<times> (nat \<times> nat) list \<times> nat) option"
  and deepcopy_info ::
    "nat \<Rightarrow> store \<Rightarrow> (nat \<times> nat) list \<Rightarrow> hinfo list \<Rightarrow> (store \<times> (nat \<times> nat) list \<times> hinfo list) option"
  and deepcopy_list ::
    "nat \<Rightarrow> store \<Rightarrow> (nat \<times> nat) list \<Rightarrow> nat list \<Rightarrow> (store \<times> (nat \<times> nat) list \<times> nat list) option"
where
  "deepcopy 0 h memo a = None"
| "deepcopy (Suc f) h memo a =
     (case map_of memo a of
        Some b \<Rightarrow> Some (h, memo, b)
      | None \<Rightarrow>
          if length h \<le> a then None
          else (case deepcopy_info f (h @ [o_set_info [] (h ! a)]) ((a, length h) # memo)
                       (o_info (h ! a)) of
                  None \<Rightarrow> None
                | Some (h', memo', i') \<Rightarrow>
                    Some (h'[length h := o_set_info i' (h ! a)], memo', length h)))"
| "deepcopy_info f h memo [] = Some (h, memo, [])"
| "deepcopy_info f h memo (HPayload v # rest) =
     (case deepcopy_info f h memo rest of
        None \<Rightarrow> None
      | Some (h', memo', rest') \<Rightarrow> Some (h', memo', HPayload v # rest'))"
| "deepcopy_info f h memo (HChildren es # rest) =
     (case deepcopy_list f h memo es of
        None \<Rightarrow> None
      | Some (h1, memo1, es') \<Rightarrow>
          (case deepcopy_info f h1 memo1 rest of
             None \<Rightarrow> None
           | Some (h', memo', rest') \<Rightarrow> Some (h', memo', HChildren es' # rest')))"
| "deepcopy_list f h memo [] = Some (h, memo, [])"
| "deepcopy_list f h memo (a # as) =
     (case deepcopy f h memo a of
        None \<Rightarrow> None
      | Some (h1, memo1, b) \<Rightarrow>
          (case deepcopy_list f h1 memo1 as of
             None \<Rightarrow> None
           | Some (h', memo', bs) \<Rightarrow> Some (h', memo', b # bs)))"
  by pat_completeness auto
termination
  by (relation "measures
        [\<lambda>x. case x of Inl (f, _) \<Rightarrow> f | Inr (Inl (f, _)) \<Rightarrow> f | Inr (Inr (f, _)) \<Rightarrow> f,
         \<lambda>x. case x of Inl _ \<Rightarrow> 0 | Inr (Inl _) \<Rightarrow> 2 | Inr (Inr _) \<Rightarrow> 1,
         \<lambda>x. case x of Inl _ \<Rightarrow> 0 | Inr (Inl (_, _, _, i)) \<Rightarrow> length i
                        | Inr (Inr (_, _, _, as)) \<Rightarrow> length as]")
     auto

text \<open>
  \<open>definitions_errors\<close> on the store: the buckets hold the addresses of the children.
\<close>

fun o_definitions_buckets ::
  "store \<Rightarrow> nat \<Rightarrow> nat list \<Rightarrow> (seg \<times> nat list) list \<Rightarrow> (pyerr + (seg \<times> nat list) list) option" where
  "o_definitions_buckets h n [] result = Some (Inr result)"
| "o_definitions_buckets h n (c # rest) result =
     (if length h \<le> c then None
      else if n < length (o_schema_path (h ! c))
      then o_definitions_buckets h n rest (bucket_append result (o_schema_path (h ! c) ! n) c)
      else Some (Inl IndexError))"

definition o_definitions_errors ::
  "store \<Rightarrow> hobj \<Rightarrow> (pyerr + (seg \<times> nat list) list option) option" where
  "o_definitions_errors h e =
     (if \<not> o_is_logic_error e then Some (Inr None)
      else (case o_for_child_errors e of
              Inl x \<Rightarrow> Some (Inl x)
            | Inr es \<Rightarrow>
                (case o_definitions_buckets h (length (o_schema_path e)) es [] of
                   None \<Rightarrow> None
                 | Some (Inl x) \<Rightarrow> Some (Inl x)
                 | Some (Inr result) \<Rightarrow> Some (Inr (Some result)))))"

text \<open>
  The rewriting pass on the store. Each function returns the store it leaves and the
  exception it raised, if any. The three loops are the \<open>for\<close> loops of
  \<open>_rewrite_group_error_path\<close> and \<open>_rewrite_logic_error_path\<close>; the only write is
  the assignment to \<open>child_error.document_path\<close>.
\<close>

function (sequential) o_rewrite_error_path :: "nat \<Rightarrow> store \<Rightarrow> nat \<Rightarrow> int \<Rightarrow> (store \<times> pyerr option) option"
  and o_group_loop :: "nat \<Rightarrow> store \<Rightarrow> nat \<Rightarrow> int \<Rightarrow> int \<Rightarrow> nat list \<Rightarrow> (store \<times> pyerr option) option"
  and o_logic_loop ::
    "nat \<Rightarrow> store \<Rightarrow> nat \<Rightarrow> int \<Rightarrow> int \<Rightarrow> (seg \<times> nat list) list \<Rightarrow> (store \<times> pyerr option) option"
  and o_definition_loop ::
    "nat \<Rightarrow> store \<Rightarrow> path \<Rightarrow> int \<Rightarrow> int \<Rightarrow> nat list \<Rightarrow> (store \<times> pyerr option) option"
where
  "o_rewrite_error_path 0 h a offset = None"
| "o_rewrite_error_path (Suc f) h a offset =
     (if length h \<le> a then None
      else if o_is_logic_error (h ! a)
      then (case o_definitions_errors h (h ! a) of
              None \<Rightarrow> None
            | Some (Inl x) \<Rightarrow> Some (h, Some x)
            | Some (Inr None) \<Rightarrow> Some (h, Some AttributeError)
            | Some (Inr (Some buckets)) \<Rightarrow>
                o_logic_loop f h a offset (int (length (o_document_path (h ! a))) - offset) buckets)
      else if o_is_group_error (h ! a)
      then (case o_for_child_errors (h ! a) of
              Inl x \<Rightarrow> Some (h, Some x)
            | Inr es \<Rightarrow>
                o_group_loop f h a offset (int (length (o_document_path (h ! a))) - offset) es)
      else Some (h, None))"
| "o_group_loop f h a offset child_start [] = Some (h, None)"
| "o_group_loop f h a offset child_start (c # rest) =
     (if length h \<le> c \<or> length h \<le> a then None
      else
        let relative_path = py_slice_from child_start (o_document_path (h ! c));
            h1 = h[c := o_set_document_path (o_document_path (h ! a) @ relative_path) (h ! c)]
        in (case o_rewrite_error_path f h1 c offset of
              None \<Rightarrow> None
            | Some (h2, Some x) \<Rightarrow> Some (h2, Some x)
            | Some (h2, None) \<Rightarrow> o_group_loop f h2 a offset child_start rest))"
| "o_logic_loop f h a offset child_start [] = Some (h, None)"
| "o_logic_loop f h a offset child_start ((i, definition_errors) # rest) =
     (if length h \<le> a then None
      else
        let new_path = o_document_path (h ! a) @ [SStr (nodename (o_rule (h ! a)) i)]
        in (case o_definition_loop f h new_path offset child_start definition_errors of
              None \<Rightarrow> None
            | Some (h1, Some x) \<Rightarrow> Some (h1, Some x)
            | Some (h1, None) \<Rightarrow> o_logic_loop f h1 a offset child_start rest))"
| "o_definition_loop f h new_path offset child_start [] = Some (h, None)"
| "o_definition_loop f h new_path offset child_start (c # rest) =
     (if length h \<le> c then None
      else
        let rel_path = py_slice_from child_start (o_document_path (h ! c));
            h1 = h[c := o_set_document_path (new_path @ rel_path) (h ! c)]
        in (case o_rewrite_error_path f h1 c (offset + 1) of
              None \<Rightarrow> None
            | Some (h2, Some x) \<Rightarrow> Some (h2, Some x)
            | Some (h2, None) \<Rightarrow> o_definition_loop f h2 new_path offset child_start rest))"
  by pat_completeness auto
termination
  by (relation "measures
        [\<lambda>x. case x of Inl (Inl (f, _)) \<Rightarrow> f | Inl (Inr (f, _)) \<Rightarrow> f
                        | Inr (Inl (f, _)) \<Rightarrow> f | Inr (Inr (f, _)) \<Rightarrow> f,
         \<lambda>x. case x of Inl (Inl _) \<Rightarrow> 0 | Inl (Inr _) \<Rightarrow> 1
                        | Inr (Inl _) \<Rightarrow> 2 | Inr (Inr _) \<Rightarrow> 1,
         \<lambda>x. case x of Inl (Inl _) \<Rightarrow> 0 | Inl (Inr (_, _, _, _, _, es)) \<Rightarrow> length es
                        | Inr (Inl (_, _, _, _, _, bs)) \<Rightarrow> length bs
                        | Inr (Inr (_, _, _, _, _, es)) \<Rightarrow> length es]")
     auto

text \<open>The error value an address stands for: the object with its children read in turn.\<close>

function (sequential) read_error :: "nat \<Rightarrow> store \<Rightarrow> nat \<Rightarrow> verror option"
  and read_info :: "nat \<Rightarrow> store \<Rightarrow> hinfo list \<Rightarrow> info_item list option"
  and read_list :: "nat \<Rightarrow> store \<Rightarrow> nat list \<Rightarrow> verror list option"
where
  "read_error 0 h a = None"
| "read_error (Suc f) h a =
     (if length h \<le> a then None
      else (case read_info f h (o_info (h ! a)) of
              None \<Rightarrow> None
            | Some i \<Rightarrow>
                Some (ValidationError (o_document_path (h ! a)) (o_schema_path (h ! a))
                        (o_code (h ! a)) (o_rule (h ! a)) (o_constraint (h ! a))
                        (o_value (h ! a)) i)))"
| "read_info f h [] = Some []"
| "read_info f h (HPayload v # rest) =
     (case read_info f h rest of None \<Rightarrow> None | Some rest' \<Rightarrow> Some (Payload v # rest'))"
| "read_info f h (HChildren es # rest) =
     (case read_list f h es of
        None \<Rightarrow> None
      | Some es' \<Rightarrow>
          (case read_info f h rest of None \<Rightarrow> None | Some rest' \<Rightarrow> Some (Children es' # rest')))"
| "read_list f h [] = Some []"
| "read_list f h (a # as) =
     (case read_error f h a of
        None \<Rightarrow> None
      | Some e \<Rightarrow> (case read_list f h as of None \<Rightarrow> None | Some es \<Rightarrow> Some (e # es)))"
  by pat_completeness auto
termination
  by (relation "measures
        [\<lambda>x. case x of Inl (f, _) \<Rightarrow> f | Inr (Inl (f, _)) \<Rightarrow> f | Inr (Inr (f, _)) \<Rightarrow> f,
         \<lambda>x. case x of Inl _ \<Rightarrow> 0 | Inr (Inl _) \<Rightarrow> 2 | Inr (Inr _) \<Rightarrow> 1,
         \<lambda>x. case x of Inl _ \<Rightarrow> 0 | Inr (Inl (_, _, i)) \<Rightarrow> length i
                        | Inr (Inr (_, _, as)) \<Rightarrow> length as]")
     auto

text \<open>
  \<open>add\<close> on the store: the error at address \<open>a\<close> is deep-copied, the copy is
  rewritten in place, and the copy is dispatched. Insertion reads the copy and writes
  \<open>self.tree\<close> only. The result is the store \<open>add\<close> leaves, with the tree or the
  exception.
\<close>

definition store_add ::
  "nat \<Rightarrow> (verror list \<Rightarrow> string) \<Rightarrow> tree \<Rightarrow> store \<Rightarrow> nat \<Rightarrow> (store \<times> (pyerr + tree)) option" where
  "store_add fuel rp tree h a =
     (case deepcopy fuel h [] a of
        None \<Rightarrow> None
      | Some (h1, memo, b) \<Rightarrow>
          (case o_rewrite_error_path fuel h1 b 0 of
             None \<Rightarrow> None
           | Some (h2, Some x) \<Rightarrow> Some (h2, Inl x)
           | Some (h2, None) \<Rightarrow>
               (case read_error fuel h2 b of
                  None \<Rightarrow> None
                | Some error \<Rightarrow> Some (h2, add_dispatch rp tree error))))"

text \<open>
  \<open>extend\<close> and \<open>__call__\<close> on the store: the errors are given by their addresses,
  and every \<open>add\<close> works on the store the one before it left.
\<close>

fun store_extend ::
  "nat \<Rightarrow> (verror list \<Rightarrow> string) \<Rightarrow> tree \<Rightarrow> store \<Rightarrow> nat list \<Rightarrow> (store \<times> (pyerr + tree)) option" where
  "store_extend fuel rp tree h [] = Some (h, Inr tree)"
| "store_extend fuel rp tree h (a # as) =
     (case store_add fuel rp tree h a of
        None \<Rightarrow> None
      | Some (h', Inl x) \<Rightarrow> Some (h', Inl x)
      | Some (h', Inr tree') \<Rightarrow> store_extend fuel rp tree' h' as)"

definition store_call ::
  "nat \<Rightarrow> (verror list \<Rightarrow> string) \<Rightarrow> tree \<Rightarrow> store \<Rightarrow> nat list
   \<Rightarrow> (store \<times> (pyerr + (tree \<times> tree))) option" where
  "store_call fuel rp tree h as =
     (case store_extend fuel rp (clear tree) h as of
        None \<Rightarrow> None
      | Some (h', Inl x) \<Rightarrow> Some (h', Inl x)
      | Some (h', Inr tree') \<Rightarrow>
          (case pretty_tree tree' of
             Inl x \<Rightarrow> Some (h', Inl x)
           | Inr pretty \<Rightarrow> Some (h', Inr (tree', pretty))))"

text \<open>A store without dangling references.\<close>

definition info_below :: "nat \<Rightarrow> hinfo list \<Rightarrow> bool" where
  "info_below n i =
     (\<forall>x\<in>set i. case x of HPayload v \<Rightarrow> True | HChildren es \<Rightarrow> \<forall>c\<in>set es. c < n)"

definition closed_store :: "store \<Rightarrow> bool" where
  "closed_store h = (\<forall>e\<in>set h. info_below (length h) (o_info e))"

text \<open>
  Freshness with respect to the length \<open>n\<close> of the caller's store: the addresses of
  copies are \<open>n\<close> and above.
\<close>

definition info_fresh :: "nat \<Rightarrow> hinfo list \<Rightarrow> bool" where
  "info_fresh n i =
     (\<forall>x\<in>set i. case x of HPayload v \<Rightarrow> True | HChildren es \<Rightarrow> \<forall>c\<in>set es. n \<le> c)"

definition store_fresh :: "nat \<Rightarrow> store \<Rightarrow> bool" where
  "store_fresh n h = (\<forall>a. n \<le> a \<longrightarrow> a < length h \<longrightarrow> info_fresh n (o_info (h ! a)))"

definition memo_fresh :: "nat \<Rightarrow> (nat \<times> nat) list \<Rightarrow> bool" where
  "memo_fresh n memo = (\<forall>kv\<in>set memo. n \<le> snd kv)"

section \<open>Example inputs\<close>

text \<open>A fixed rendering of error lists, for the examples.\<close>

definition repr0 :: "verror list \<Rightarrow> string" where
  "repr0 es = ''[...]''"

text \<open>A \<open>schema\<close> group error on field \<open>a\<close> with one \<open>type\<close> error on \<open>a.b\<close>.\<close>

definition group_example :: verror where
  "group_example =
     ValidationError [SStr ''a''] [SStr ''a'', SStr ''schema''] 0x81 (Some ''schema'') VNone VNone
       [Children [ValidationError [SStr ''a'', SStr ''b'']
                    [SStr ''a'', SStr ''schema'', SStr ''b'', SStr ''type'']
                    0x24 (Some ''type'') (VStr ''integer'') (VStr ''x'') []]]"

text \<open>The same group error, whose child has the code \<open>0x07\<close>, which has no template.\<close>

definition group_unknown_child :: verror where
  "group_unknown_child =
     ValidationError [SStr ''a''] [SStr ''a'', SStr ''schema''] 0x81 (Some ''schema'') VNone VNone
       [Children [ValidationError [SStr ''a'', SStr ''b'']
                    [SStr ''a'', SStr ''schema'', SStr ''b'', SStr ''custom'']
                    0x07 (Some ''custom'') VNone (VStr ''x'') []]]"

text \<open>A document-level error: \<open>DOCUMENT_MISSING\<close> with the empty document path.\<close>

definition doc_missing :: verror where
  "doc_missing = ValidationError [] [] 0x01 None VNone VNone []"

text \<open>An \<open>anyof\<close> error on \<open>price\<close> with two children per definition.\<close>

definition anyof_c1 :: verror where
  "anyof_c1 = ValidationError [SStr ''price''] [SStr ''price'', SStr ''anyof'', SInt 0, SStr ''type'']
                0x24 (Some ''type'') (VStr ''integer'') (VStr ''x'') []"

definition anyof_c2 :: verror where
  "anyof_c2 = ValidationError [SStr ''price''] [SStr ''price'', SStr ''anyof'', SInt 0, SStr ''min'']
                0x42 (Some ''min'') (VInt 10) (VStr ''x'') []"

definition anyof_c3 :: verror where
  "anyof_c3 = ValidationError [SStr ''price''] [SStr ''price'', SStr ''anyof'', SInt 1, SStr ''type'']
                0x24 (Some ''type'') (VStr ''float'') (VStr ''x'') []"

definition anyof_c4 :: verror where
  "anyof_c4 = ValidationError [SStr ''price''] [SStr ''price'', SStr ''anyof'', SInt 1, SStr ''max'']
                0x43 (Some ''max'') (VInt 5) (VStr ''x'') []"

definition anyof_example :: verror where
  "anyof_example =
     ValidationError [SStr ''price''] [SStr ''price'', SStr ''anyof''] 0x93 (Some ''anyof'') VNone
       (VStr ''x'') [Children [anyof_c1, anyof_c2, anyof_c3, anyof_c4]]"

text \<open>
  A comparator for the examples (the theorems hold for every comparator), and a group
  error with the empty document path and one child on field \<open>b\<close>.
\<close>

definition lt0 :: "path \<Rightarrow> path \<Rightarrow> bool" where
  "lt0 p q = (length p < length q)"

definition rootless_child :: verror where
  "rootless_child = ValidationError [SStr ''b''] [SStr ''b'', SStr ''type'']
                      0x24 (Some ''type'') (VStr ''integer'') (VStr ''x'') []"

definition rootless_group :: verror where
  "rootless_group = ValidationError [] [] 0x81 (Some ''schema'') VNone VNone
                      [Children [rootless_child]]"

definition group_example_child :: verror where
  "group_example_child =
     ValidationError [SStr ''a'', SStr ''b'']
       [SStr ''a'', SStr ''schema'', SStr ''b'', SStr ''type'']
       0x24 (Some ''type'') (VStr ''integer'') (VStr ''x'') []"

text \<open>
  A store with an \<open>anyof\<close> error on \<open>price\<close> at address 0 and its two children
  at addresses 1 and 2.
\<close>

definition store_example :: store where
  "store_example =
    [HError [SStr ''price''] [SStr ''price'', SStr ''anyof''] 0x93 (Some ''anyof'') VNone
       (VStr ''x'') [HChildren [1, 2]],
     HError [SStr ''price''] [SStr ''price'', SStr ''anyof'', SInt 0, SStr ''type'']
       0x24 (Some ''type'') (VStr ''integer'') (VStr ''x'') [],
     HError [SStr ''price''] [SStr ''price'', SStr ''anyof'', SInt 1, SStr ''type'']
       0x24 (Some ''type'') (VStr ''float'') (VStr ''x'') []]"

text \<open>A second rendering of error lists, and a tree left by an earlier run.\<close>

definition repr1 :: "verror list \<Rightarrow> string" where
  "repr1 es = ''[<errors>]''"

definition used_tree :: tree where
  "used_tree = [(SStr ''name'', [Msg ''required field'', Sub []])]"

text \<open>An error with the code \<open>0x10\<close>: the logic bit without the group bit.\<close>

definition logic_bit_only :: verror where
  "logic_bit_only = ValidationError [SStr ''a''] [SStr ''a'', SStr ''check''] 0x10 None VNone VNone []"

text \<open>
  A \<open>CUSTOM\<close> error (code \<open>0x00\<close>, template \<open>{0}\<close>) that holds a list of errors
  at \<open>info[0]\<close> without being a group error.
\<close>

definition plain_with_list :: verror where
  "plain_with_list =
     ValidationError [SStr ''a''] [SStr ''a'', SStr ''check''] 0x00 None VNone VNone
       [Children [ValidationError [SStr ''a'', SStr ''b'']
                    [SStr ''a'', SStr ''schema'', SStr ''b'', SStr ''type'']
                    0x24 (Some ''type'') (VStr ''integer'') (VStr ''x'') []]]"

text \<open>
  Stores: \<open>group_example\<close> at address 0 with its child at address 1; the \<open>anyof\<close>
  error of \<open>anyof_example\<close> at address 0 with its four children at addresses 1 to 4;
  and an \<open>anyof\<close> error whose child list holds the one object at address 1 twice.
\<close>

definition group_store :: store where
  "group_store =
    [HError [SStr ''a''] [SStr ''a'', SStr ''schema''] 0x81 (Some ''schema'') VNone VNone
       [HChildren [1]],
     HError [SStr ''a'', SStr ''b''] [SStr ''a'', SStr ''schema'', SStr ''b'', SStr ''type'']
       0x24 (Some ''type'') (VStr ''integer'') (VStr ''x'') []]"

definition anyof_store :: store where
  "anyof_store =
    [HError [SStr ''price''] [SStr ''price'', SStr ''anyof''] 0x93 (Some ''anyof'') VNone
       (VStr ''x'') [HChildren [1, 2, 3, 4]],
     HError [SStr ''price''] [SStr ''price'', SStr ''anyof'', SInt 0, SStr ''type'']
       0x24 (Some ''type'') (VStr ''integer'') (VStr ''x'') [],
     HError [SStr ''price''] [SStr ''price'', SStr ''anyof'', SInt 0, SStr ''min'']
       0x42 (Some ''min'') (VInt 10) (VStr ''x'') [],
     HError [SStr ''price''] [SStr ''price'', SStr ''anyof'', SInt 1, SStr ''type'']
       0x24 (Some ''type'') (VStr ''float'') (VStr ''x'') [],
     HError [SStr ''price''] [SStr ''price'', SStr ''anyof'', SInt 1, SStr ''max'']
       0x43 (Some ''max'') (VInt 5) (VStr ''x'') []]"

definition shared_child_store :: store where
  "shared_child_store =
    [HError [SStr ''price''] [SStr ''price'', SStr ''anyof''] 0x93 (Some ''anyof'') VNone
       (VStr ''x'') [HChildren [1, 1]],
     HError [SStr ''price''] [SStr ''price'', SStr ''anyof'', SInt 0, SStr ''type'']
       0x24 (Some ''type'') (VStr ''integer'') (VStr ''x'') []]"

section \<open>Auxiliary facts\<close>

lemma sel_set_document_path [simp]:
  "document_path (set_document_path p e) = p"
  "schema_path (set_document_path p e) = schema_path e"
  "code (set_document_path p e) = code e"
  "rule (set_document_path p e) = rule e"
  "constraint (set_document_path p e) = constraint e"
  "value' (set_document_path p e) = value' e"
  "info (set_document_path p e) = info e"
  by (cases e; simp)+

lemma class_set_document_path [simp]:
  "is_group_error (set_document_path p e) = is_group_error e"
  "is_logic_error (set_document_path p e) = is_logic_error e"
  by (simp_all add: is_group_error_def is_logic_error_def)

lemma class_set_children [simp]:
  "is_group_error (set_children es e) = is_group_error e"
  "is_logic_error (set_children es e) = is_logic_error e"
  "document_path (set_children es e) = document_path e"
  "code (set_children es e) = code e"
  by (induction es e rule: set_children.induct; simp add: is_group_error_def is_logic_error_def)+

lemma rewrite_plain:
  "\<not> is_logic_error e \<Longrightarrow> \<not> is_group_error e \<Longrightarrow> rewrite_error_path e off = Inr e"
  by (simp add: rewrite_error_path.simps)

lemma for_child_errors_Children:
  "is_group_error g \<Longrightarrow> info g = Children es # rest \<Longrightarrow> for_child_errors g = Inr es"
  by (simp add: for_child_errors_def child_errors_def)

lemma for_child_errors_set_children:
  "is_group_error g \<Longrightarrow> info g = Children es # rest \<Longrightarrow>
   for_child_errors (set_children es' g) = Inr es'"
  by (cases g) (simp add: for_child_errors_def child_errors_def is_group_error_def)

lemma mapM_err_Inl: "mapM_err f xs = Inl x \<Longrightarrow> \<exists>y\<in>set xs. f y = Inl x"
  by (induction xs) (auto split: sum.splits)

lemma format_piece_Inl: "format_piece rp fld e p = Inl x \<Longrightarrow> x = IndexError"
  by (cases p) (auto split: if_splits)

lemma format_message_Inl:
  "format_message rp fld e = Inl x \<Longrightarrow> map_of messages (code e) \<noteq> None \<Longrightarrow> x = IndexError"
  by (auto simp: format_message_def split: option.splits sum.splits
           dest!: mapM_err_Inl format_piece_Inl)

lemma format_piece_set_document_path [simp]:
  "format_piece rp fld (set_document_path p e) = format_piece rp fld e"
proof
  fix pc show "format_piece rp fld (set_document_path p e) pc = format_piece rp fld e pc"
    by (cases pc) simp_all
qed

lemma format_message_set_document_path [simp]:
  "format_message rp fld (set_document_path p e) = format_message rp fld e"
  by (simp add: format_message_def split: option.splits)

lemma catalogue_plain_not_logic:
  assumes "map_of messages c \<noteq> None" and "c AND 0x80 = 0"
  shows "c AND 0x10 = 0"
proof -
  from assms(1) have "c \<in> fst ` set messages"
    by (simp add: map_of_eq_None_iff)
  then have "c \<in> {0x00, 0x01, 0x02, 0x03, 0x04, 0x05, 0x06, 0x21, 0x22, 0x23, 0x24, 0x26, 0x27,
      0x28, 0x41, 0x42, 0x43, 0x44, 0x45, 0x46, 0x47, 0x48, 0x61, 0x62, 0x63, 0x64,
      0x81, 0x82, 0x83, 0x84, 0x85, 0x91, 0x92, 0x93, 0x94}"
    by (simp add: messages_def)
  with assms(2) show ?thesis by auto
qed

lemma nodename_anyof:
  "nodename (Some ''anyof'') (SInt 0) = ''anyof definition 0''"
  "nodename (Some ''anyof'') (SInt 1) = ''anyof definition 1''"
  by code_simp+

lemma purge_msgs_empty:
  "purge_empty_dicts (ms @ [Sub []]) = Inr ms"
  by (subst purge_empty_dicts.simps) simp

lemma purge_Sub_nonempty:
  "st \<noteq> [] \<Longrightarrow> purge_empty_dicts (ms @ [Sub st]) =
     (case mapM_err (\<lambda>(key, l). case purge_empty_dicts l of
                                     Inl e \<Rightarrow> Inl e
                                   | Inr l' \<Rightarrow> Inr (key, l')) st of
        Inl e \<Rightarrow> Inl e
      | Inr st' \<Rightarrow> Inr (ms @ [Sub st']))"
  by (subst purge_empty_dicts.simps) (simp split: sum.splits)

text \<open>
  A plain error whose code has no template is skipped by \<open>add\<close>: the tree is left as
  it was.
\<close>

lemma add_unknown_plain_code_skipped:
  assumes "\<not> is_group_error e" and "\<not> is_logic_error e" and "map_of messages (code e) = None"
  shows "add rp tree e = Inr tree"
  using assms by (simp add: add_def add_dispatch_def rewrite_plain)

lemma node_fetch_errors:
  "(case node_fetch n p of None \<Rightarrow> [] | Some m \<Rightarrow> errors m) = node_errors_at n p"
  by (induction n p rule: node_fetch.induct) (auto split: option.splits)

lemma fetch_errors_from_alt:
  "fetch_errors_from t p = (if p = [] then tree_errors t else descs_errors (tree_descendants t) p)"
  by (cases p) (simp_all add: fetch_errors_from_def descs_errors_def node_fetch_errors
      split: option.splits)

lemma node_errors_at_Cons:
  "node_errors_at n (key # rest) = descs_errors (descendants n) (key # rest)"
  by (simp add: descs_errors_def)

lemma map_of_dict_set:
  "map_of (dict_set d k v) k' = (if k' = k then Some v else map_of d k')"
  by (induction d k v rule: dict_set.induct) auto

lemma set_dict_set: "set (dict_set d k v) \<subseteq> insert (k, v) (set d)"
  by (induction d k v rule: dict_set.induct) auto

lemma set_insert_sorted [simp]: "set (insert_sorted lt x ys) = insert x (set ys)"
  by (induction ys) auto

lemma set_py_sort [simp]: "set (py_sort lt xs) = set xs"
  by (induction xs) (simp_all add: py_sort_def)

lemma node_add_ok:
  assumes "\<forall>kn\<in>set descs. wf_node (Suc depth) (snd kn)"
    and "depth < length (path_of tt e)"
  shows "\<exists>descs'. node_add tt lt depth descs e = Inr descs'
           \<and> (\<forall>kn\<in>set descs'. wf_node (Suc depth) (snd kn))
           \<and> e \<in> set (descs_errors descs' (drop depth (path_of tt e)))
           \<and> (\<forall>q. set (descs_errors descs q) \<subseteq> set (descs_errors descs' q))"
  using assms
proof (induction tt lt depth descs e rule: node_add.induct)
  case (1 tt lt depth descs error)
  let ?P = "path_of tt error"
  let ?key = "?P ! depth"
  let ?node = "case map_of descs ?key of
                 None \<Rightarrow> ErrorTreeNode (take (depth + 1) ?P) [] [] | Some n \<Rightarrow> n"
  have lt: "depth < length ?P" by (rule "1.prems"(2))
  have wfn: "wf_node (Suc depth) ?node"
  proof (cases "map_of descs ?key")
    case None
    then show ?thesis using lt by simp
  next
    case (Some n)
    then have "(?key, n) \<in> set descs" by (rule map_of_SomeD)
    with "1.prems"(1) Some show ?thesis by auto
  qed
  then have plen: "length (path ?node) = Suc depth"
    and wfd: "\<forall>kn\<in>set (descendants ?node). wf_node (Suc (Suc depth)) (snd kn)"
    by (cases ?node; simp)+
  have dropP: "drop depth ?P = ?key # drop (Suc depth) ?P"
    using lt by (simp add: Cons_nth_drop_Suc)
  show ?case
  proof (cases "length ?P = depth + 1")
    case True
    let ?n' = "ErrorTreeNode (path ?node) (py_sort lt (errors ?node @ [error])) (descendants ?node)"
    let ?d' = "dict_set descs ?key ?n'"
    have res: "node_add tt lt depth descs error = Inr ?d'"
      using lt True by (subst node_add.simps) (simp add: Let_def)
    have wf': "\<forall>kn\<in>set ?d'. wf_node (Suc depth) (snd kn)"
      using set_dict_set [of descs ?key ?n'] "1.prems"(1) plen wfd by auto
    have mem: "error \<in> set (descs_errors ?d' (drop depth ?P))"
      using True by (simp add: dropP descs_errors_def map_of_dict_set)
    have mono: "set (descs_errors descs q) \<subseteq> set (descs_errors ?d' q)" for q
    proof (cases q)
      case Nil
      then show ?thesis by (simp add: descs_errors_def)
    next
      case (Cons k r)
      show ?thesis
      proof (cases "k = ?key")
        case False
        then show ?thesis by (simp add: Cons descs_errors_def map_of_dict_set)
      next
        case k: True
        show ?thesis
        proof (cases "map_of descs ?key")
          case None
          then show ?thesis by (simp add: Cons k descs_errors_def)
        next
          case (Some n)
          then show ?thesis
            by (cases r) (auto simp: Cons k descs_errors_def map_of_dict_set)
        qed
      qed
    qed
    from res wf' mem mono show ?thesis by blast
  next
    case False
    then have lt2: "Suc depth < length ?P" using lt by simp
    have rec: "\<exists>descs'. node_add tt lt (length (path ?node)) (descendants ?node) error = Inr descs'
           \<and> (\<forall>kn\<in>set descs'. wf_node (Suc (length (path ?node))) (snd kn))
           \<and> error \<in> set (descs_errors descs' (drop (length (path ?node)) ?P))
           \<and> (\<forall>q. set (descs_errors (descendants ?node) q) \<subseteq> set (descs_errors descs' q))"
      using "1.IH" [OF refl _ refl refl False] lt wfd lt2 plen by simp
    then obtain d2 where d2: "node_add tt lt (Suc depth) (descendants ?node) error = Inr d2"
      and wf2: "\<forall>kn\<in>set d2. wf_node (Suc (Suc depth)) (snd kn)"
      and mem2: "error \<in> set (descs_errors d2 (drop (Suc depth) ?P))"
      and mono2: "\<And>q. set (descs_errors (descendants ?node) q) \<subseteq> set (descs_errors d2 q)"
      unfolding plen by blast
    let ?n' = "ErrorTreeNode (path ?node) (errors ?node) d2"
    let ?d' = "dict_set descs ?key ?n'"
    have res: "node_add tt lt depth descs error = Inr ?d'"
      using lt False d2 by (subst node_add.simps) (simp add: Let_def plen)
    have wf': "\<forall>kn\<in>set ?d'. wf_node (Suc depth) (snd kn)"
      using set_dict_set [of descs ?key ?n'] "1.prems"(1) plen wf2 by auto
    obtain k2 r2 where dr: "drop (Suc depth) ?P = k2 # r2"
      using lt2 by (cases "drop (Suc depth) ?P") auto
    have mem: "error \<in> set (descs_errors ?d' (drop depth ?P))"
      using mem2 by (simp add: dropP descs_errors_def map_of_dict_set dr)
    have mono: "set (descs_errors descs q) \<subseteq> set (descs_errors ?d' q)" for q
    proof (cases q)
      case Nil
      then show ?thesis by (simp add: descs_errors_def)
    next
      case (Cons k r)
      show ?thesis
      proof (cases "k = ?key")
        case False
        then show ?thesis by (simp add: Cons descs_errors_def map_of_dict_set)
      next
        case k: True
        show ?thesis
        proof (cases "map_of descs ?key")
          case None
          then show ?thesis by (simp add: Cons k descs_errors_def)
        next
          case (Some n)
          show ?thesis
          proof (cases r)
            case Nil
            then show ?thesis using Some by (simp add: Cons k descs_errors_def map_of_dict_set)
          next
            case (Cons k3 r3)
            have "set (descs_errors (descendants n) (k3 # r3)) \<subseteq> set (descs_errors d2 (k3 # r3))"
              using mono2 [of "k3 # r3"] Some by simp
            then show ?thesis using Some
              by (simp add: \<open>q = k # r\<close> Cons k descs_errors_def map_of_dict_set)
          qed
        qed
      qed
    qed
    from res wf' mem mono show ?thesis by blast
  qed
qed

lemma foldM_add_ok:
  assumes step: "\<And>c t. c \<in> set es \<Longrightarrow> wf_tree t \<Longrightarrow>
       \<exists>t'. ErrorTree_add tt lt t c = Inr t' \<and> wf_tree t'
          \<and> c \<in> set (fetch_errors_from t' (path_of tt c))
          \<and> (\<forall>q. set (fetch_errors_from t q) \<subseteq> set (fetch_errors_from t' q))"
    and wf: "wf_tree t"
  shows "\<exists>t'. foldM_err (ErrorTree_add tt lt) t es = Inr t' \<and> wf_tree t'
          \<and> (\<forall>q. set (fetch_errors_from t q) \<subseteq> set (fetch_errors_from t' q))
          \<and> (\<forall>c\<in>set es. c \<in> set (fetch_errors_from t' (path_of tt c)))"
  using assms
proof (induction es arbitrary: t)
  case Nil
  then show ?case by simp
next
  case (Cons c es)
  from Cons.prems(1) [of c t] Cons.prems(2)
  obtain t1 where t1: "ErrorTree_add tt lt t c = Inr t1" and wf1: "wf_tree t1"
    and mem1: "c \<in> set (fetch_errors_from t1 (path_of tt c))"
    and mono1: "\<And>q. set (fetch_errors_from t q) \<subseteq> set (fetch_errors_from t1 q)"
    by auto
  have "\<exists>t'. foldM_err (ErrorTree_add tt lt) t1 es = Inr t' \<and> wf_tree t'
          \<and> (\<forall>q. set (fetch_errors_from t1 q) \<subseteq> set (fetch_errors_from t' q))
          \<and> (\<forall>c\<in>set es. c \<in> set (fetch_errors_from t' (path_of tt c)))"
    using Cons.prems(1) wf1 by (intro Cons.IH) auto
  then obtain t2 where t2: "foldM_err (ErrorTree_add tt lt) t1 es = Inr t2" and wf2: "wf_tree t2"
    and mono2: "\<And>q. set (fetch_errors_from t1 q) \<subseteq> set (fetch_errors_from t2 q)"
    and mem2: "\<forall>c\<in>set es. c \<in> set (fetch_errors_from t2 (path_of tt c))"
    by blast
  have "foldM_err (ErrorTree_add tt lt) t (c # es) = Inr t2"
    by (simp add: t1 t2)
  moreover have "\<forall>q. set (fetch_errors_from t q) \<subseteq> set (fetch_errors_from t2 q)"
    using mono1 mono2 by blast
  moreover have "\<forall>c'\<in>set (c # es). c' \<in> set (fetch_errors_from t2 (path_of tt c'))"
    using mem1 mono2 mem2 by auto
  ultimately show ?case using wf2 by blast
qed

lemma tree_add_ok:
  assumes "wf_tree t" and "flattenable tt e"
  shows "\<exists>t'. ErrorTree_add tt lt t e = Inr t' \<and> wf_tree t'
          \<and> e \<in> set (fetch_errors_from t' (path_of tt e))
          \<and> (\<forall>q. set (fetch_errors_from t q) \<subseteq> set (fetch_errors_from t' q))"
  using assms
proof (induction tt lt t e rule: ErrorTree_add.induct)
  case (1 tt lt self error)
  show ?case
  proof (cases "path_of tt error = []")
    case True
    then show ?thesis using "1.prems"(1)
      by (subst ErrorTree_add.simps) (auto simp: wf_tree_def fetch_errors_from_alt)
  next
    case False
    have wfd: "\<forall>kn\<in>set (tree_descendants self). wf_node (Suc 0) (snd kn)"
      using "1.prems"(1) by (simp add: wf_tree_def)
    from node_add_ok [OF wfd, of tt error lt] False
    obtain descs where na: "node_add tt lt 0 (tree_descendants self) error = Inr descs"
      and wf': "\<forall>kn\<in>set descs. wf_node (Suc 0) (snd kn)"
      and mem: "error \<in> set (descs_errors descs (path_of tt error))"
      and mono: "\<And>q. set (descs_errors (tree_descendants self) q) \<subseteq> set (descs_errors descs q)"
      by auto
    let ?t1 = "ErrorTree (tree_errors self) descs"
    have wf1: "wf_tree ?t1" using wf' by (simp add: wf_tree_def)
    have mem1: "error \<in> set (fetch_errors_from ?t1 (path_of tt error))"
      using mem False by (simp add: fetch_errors_from_alt)
    have mono1: "set (fetch_errors_from self q) \<subseteq> set (fetch_errors_from ?t1 q)" for q
      using mono [of q] by (simp add: fetch_errors_from_alt)
    show ?thesis
    proof (cases "is_group_error error")
      case ng: False
      have "ErrorTree_add tt lt self error = Inr ?t1"
        using False ng na by (subst ErrorTree_add.simps) simp
      with wf1 mem1 mono1 show ?thesis by blast
    next
      case g: True
      from "1.prems"(2) False g obtain es where es: "for_child_errors error = Inr es"
        and fl: "\<forall>c\<in>set es. flattenable tt c"
        by (subst (asm) flattenable.simps) (auto split: sum.splits)
      have step: "\<exists>t'. ErrorTree_add tt lt t c = Inr t' \<and> wf_tree t'
          \<and> c \<in> set (fetch_errors_from t' (path_of tt c))
          \<and> (\<forall>q. set (fetch_errors_from t q) \<subseteq> set (fetch_errors_from t' q))"
        if "c \<in> set es" "wf_tree t" for c t
        using "1.IH" [OF False na g es that(1) that(2)] fl that(1) by blast
      from foldM_add_ok [of es tt lt ?t1, OF step wf1]
      obtain t2 where t2: "foldM_err (ErrorTree_add tt lt) ?t1 es = Inr t2" and wf2: "wf_tree t2"
        and mono2: "\<And>q. set (fetch_errors_from ?t1 q) \<subseteq> set (fetch_errors_from t2 q)"
        by blast
      have "ErrorTree_add tt lt self error = Inr t2"
        using False g na es t2 by (subst ErrorTree_add.simps) simp
      moreover have "error \<in> set (fetch_errors_from t2 (path_of tt error))"
        using mem1 mono2 by blast
      moreover have "\<forall>q. set (fetch_errors_from self q) \<subseteq> set (fetch_errors_from t2 q)"
        using mono1 mono2 by blast
      ultimately show ?thesis using wf2 by blast
    qed
  qed
qed

lemma o_info_set_info [simp]: "o_info (o_set_info i e) = i"
  by (cases e) simp

lemma o_info_set_document_path [simp]: "o_info (o_set_document_path p e) = o_info e"
  by (cases e) simp

lemma info_fresh_simps [simp]:
  "info_fresh n []"
  "info_fresh n (HPayload v # i) = info_fresh n i"
  "info_fresh n (HChildren es # i) = ((\<forall>c\<in>set es. n \<le> c) \<and> info_fresh n i)"
  by (simp_all add: info_fresh_def)

lemma store_fresh_append:
  "store_fresh n h \<Longrightarrow> info_fresh n (o_info e) \<Longrightarrow> store_fresh n (h @ [e])"
  by (auto simp: store_fresh_def nth_append less_Suc_eq)

lemma store_fresh_update:
  assumes "store_fresh n h" and "info_fresh n (o_info e)"
  shows "store_fresh n (h[k := e])"
  unfolding store_fresh_def
proof (intro allI impI)
  fix a assume "n \<le> a" and "a < length (h[k := e])"
  then show "info_fresh n (o_info (h[k := e] ! a))"
    using assms by (cases "a = k") (auto simp: store_fresh_def)
qed

lemma take_update_ge: "n \<le> k \<Longrightarrow> take n (h[k := e]) = take n h"
  by simp

lemma deepcopy_inv:
  "deepcopy f h memo a = Some (h', memo', b) \<Longrightarrow> n \<le> length h \<Longrightarrow> memo_fresh n memo \<Longrightarrow>
     store_fresh n h \<Longrightarrow>
     length h \<le> length h' \<and> take n h' = take n h \<and> memo_fresh n memo' \<and> store_fresh n h' \<and> n \<le> b"
  "deepcopy_info f h memo i = Some (h', memo', i') \<Longrightarrow> n \<le> length h \<Longrightarrow> memo_fresh n memo \<Longrightarrow>
     store_fresh n h \<Longrightarrow>
     length h \<le> length h' \<and> take n h' = take n h \<and> memo_fresh n memo' \<and> store_fresh n h'
       \<and> info_fresh n i'"
  "deepcopy_list f h memo as = Some (h', memo', bs) \<Longrightarrow> n \<le> length h \<Longrightarrow> memo_fresh n memo \<Longrightarrow>
     store_fresh n h \<Longrightarrow>
     length h \<le> length h' \<and> take n h' = take n h \<and> memo_fresh n memo' \<and> store_fresh n h'
       \<and> (\<forall>c\<in>set bs. n \<le> c)"
proof (induction f h memo a and f h memo i and f h memo as
       arbitrary: h' memo' b and h' memo' i' and h' memo' bs
       rule: deepcopy_deepcopy_info_deepcopy_list.induct)
  case (1 h memo a)
  then show ?case by simp
next
  case (2 f h memo a)
  show ?case
  proof (cases "map_of memo a")
    case (Some b0)
    with "2.prems" have "h' = h" "memo' = memo" "b = b0" by simp_all
    moreover from Some have "(a, b0) \<in> set memo" by (rule map_of_SomeD)
    ultimately show ?thesis using "2.prems" by (auto simp: memo_fresh_def)
  next
    case None
    from "2.prems"(1) None have a: "a < length h"
      by (auto split: if_splits)
    let ?h1 = "h @ [o_set_info [] (h ! a)]"
    let ?m1 = "(a, length h) # memo"
    from "2.prems"(1) None a obtain h2 i2 where
      dc: "deepcopy_info f ?h1 ?m1 (o_info (h ! a)) = Some (h2, memo', i2)"
      and h': "h' = h2[length h := o_set_info i2 (h ! a)]" and b: "b = length h"
      by (auto split: option.splits)
    have p1: "n \<le> length ?h1" using "2.prems"(2) by simp
    have p2: "memo_fresh n ?m1" using "2.prems"(2,3) by (simp add: memo_fresh_def)
    have p3: "store_fresh n ?h1" using "2.prems"(4) by (simp add: store_fresh_append)
    from "2.IH" [OF None _ dc p1 p2 p3] a
    have len: "length ?h1 \<le> length h2" and tk: "take n h2 = take n ?h1"
      and mf: "memo_fresh n memo'" and sf: "store_fresh n h2" and inf: "info_fresh n i2"
      by auto
    have "take n h' = take n h"
      using tk "2.prems"(2) by (simp add: h')
    moreover have "store_fresh n h'"
      unfolding h' using sf inf by (intro store_fresh_update) simp_all
    ultimately show ?thesis using len mf b "2.prems"(2) by (simp add: h')
  qed
next
  case (3 f h memo)
  then show ?case by simp
next
  case (4 f h memo v rest)
  from "4.prems"(1) obtain r' where
    dc: "deepcopy_info f h memo rest = Some (h', memo', r')" and i': "i' = HPayload v # r'"
    by (auto split: option.splits)
  from "4.IH" [OF dc "4.prems"(2,3,4)] show ?case by (simp add: i')
next
  case (5 f h memo es rest)
  from "5.prems"(1) obtain h1 m1 es' r' where
    dl: "deepcopy_list f h memo es = Some (h1, m1, es')"
    and di: "deepcopy_info f h1 m1 rest = Some (h', memo', r')"
    and i': "i' = HChildren es' # r'"
    by (auto split: option.splits)
  from "5.IH"(1) [OF dl "5.prems"(2,3,4)]
  have a1: "length h \<le> length h1" "take n h1 = take n h" "memo_fresh n m1" "store_fresh n h1"
    "\<forall>c\<in>set es'. n \<le> c"
    by auto
  have n1: "n \<le> length h1" using a1(1) "5.prems"(2) by simp
  from "5.IH"(2) [OF dl refl refl di n1 a1(3) a1(4)] a1
  show ?case by (simp add: i')
next
  case (6 f h memo)
  then show ?case by simp
next
  case (7 f h memo a as)
  from "7.prems"(1) obtain h1 m1 b1 bs1 where
    d1: "deepcopy f h memo a = Some (h1, m1, b1)"
    and dl: "deepcopy_list f h1 m1 as = Some (h', memo', bs1)"
    and bs: "bs = b1 # bs1"
    by (auto split: option.splits)
  from "7.IH"(1) [OF d1 "7.prems"(2,3,4)]
  have a1: "length h \<le> length h1" "take n h1 = take n h" "memo_fresh n m1" "store_fresh n h1"
    "n \<le> b1"
    by auto
  have n1: "n \<le> length h1" using a1(1) "7.prems"(2) by simp
  from "7.IH"(2) [OF d1 refl refl dl n1 a1(3) a1(4)] a1
  show ?case by (simp add: bs)
qed

lemma store_fresh_same_info:
  assumes "store_fresh n h" and "map o_info h' = map o_info h"
  shows "store_fresh n h'"
proof -
  have len: "length h' = length h" using assms(2) by (metis length_map)
  have "o_info (h' ! a) = o_info (h ! a)" if "a < length h" for a
    using assms(2) that len by (metis nth_map)
  then show ?thesis using assms(1) len by (simp add: store_fresh_def)
qed

lemma map_o_info_update:
  "c < length h \<Longrightarrow> map o_info (h[c := o_set_document_path p (h ! c)]) = map o_info h"
  by (simp add: map_update list_update_same_conv)

lemma o_for_child_errors_fresh:
  assumes "o_for_child_errors e = Inr es" and "info_fresh n (o_info e)"
  shows "\<forall>c\<in>set es. n \<le> c"
proof -
  from assms(1) obtain x i' where i: "o_info e = x # i'" and it: "o_iter_errors (Some x) = Inr es"
    by (auto simp: o_for_child_errors_def o_child_errors_def split: if_splits list.splits)
  show ?thesis
  proof (cases x)
    case (HPayload v)
    with it show ?thesis by (cases v) (auto split: if_splits)
  next
    case (HChildren cs)
    with it assms(2) i show ?thesis by simp
  qed
qed

lemma o_definitions_buckets_members:
  "o_definitions_buckets h m es acc = Some (Inr b) \<Longrightarrow> (i, cs) \<in> set b \<Longrightarrow> c \<in> set cs \<Longrightarrow>
   c \<in> set es \<or> (\<exists>i' cs'. (i', cs') \<in> set acc \<and> c \<in> set cs')"
proof (induction h m es acc rule: o_definitions_buckets.induct)
  case (1 h n result)
  then show ?case by auto
next
  case (2 h n c0 rest result)
  from "2.prems"(1) have lt: "\<not> length h \<le> c0" "n < length (o_schema_path (h ! c0))"
    and eq: "o_definitions_buckets h n rest
               (bucket_append result (o_schema_path (h ! c0) ! n) c0) = Some (Inr b)"
    by (auto split: if_splits)
  from "2.IH" [OF lt eq "2.prems"(2,3)]
  show ?case using bucket_append_members by fastforce
qed

lemma o_definitions_errors_fresh:
  assumes "o_definitions_errors h e = Some (Inr (Some buckets))" and "info_fresh n (o_info e)"
  shows "\<forall>b\<in>set buckets. \<forall>c\<in>set (snd b). n \<le> c"
proof -
  from assms(1) obtain es where es: "o_for_child_errors e = Inr es"
    and b: "o_definitions_buckets h (length (o_schema_path e)) es [] = Some (Inr buckets)"
    by (auto simp: o_definitions_errors_def split: if_splits sum.splits option.splits)
  from o_for_child_errors_fresh [OF es assms(2)] have fr: "\<forall>c\<in>set es. n \<le> c" .
  show ?thesis
  proof (intro ballI)
    fix bk c assume bk: "bk \<in> set buckets" and c: "c \<in> set (snd bk)"
    obtain i cs where "bk = (i, cs)" by (cases bk)
    with o_definitions_buckets_members [OF b, of i cs c] bk c have "c \<in> set es" by simp
    with fr show "n \<le> c" by simp
  qed
qed

lemma o_rewrite_frame:
  "o_rewrite_error_path f h a offset = Some (h', r) \<Longrightarrow> n \<le> a \<Longrightarrow> store_fresh n h \<Longrightarrow>
     take n h' = take n h \<and> map o_info h' = map o_info h"
  "o_group_loop f h a offset cstart es = Some (h', r) \<Longrightarrow> \<forall>c\<in>set es. n \<le> c \<Longrightarrow>
     store_fresh n h \<Longrightarrow>
     take n h' = take n h \<and> map o_info h' = map o_info h"
  "o_logic_loop f h a offset cstart buckets = Some (h', r) \<Longrightarrow>
     \<forall>b\<in>set buckets. \<forall>c\<in>set (snd b). n \<le> c \<Longrightarrow> store_fresh n h \<Longrightarrow>
     take n h' = take n h \<and> map o_info h' = map o_info h"
  "o_definition_loop f h p offset cstart es = Some (h', r) \<Longrightarrow> \<forall>c\<in>set es. n \<le> c \<Longrightarrow>
     store_fresh n h \<Longrightarrow>
     take n h' = take n h \<and> map o_info h' = map o_info h"
proof (induction f h a offset and f h a offset cstart es and f h a offset cstart buckets
         and f h p offset cstart es
       arbitrary: h' r and h' r and h' r and h' r
       rule: o_rewrite_error_path_o_group_loop_o_logic_loop_o_definition_loop.induct)
  case (1 h a offset)
  then show ?case by simp
next
  case (2 f h a offset)
  from "2.prems"(1) have a: "a < length h" by (auto split: if_splits)
  with "2.prems"(2,3) have fr: "info_fresh n (o_info (h ! a))" by (simp add: store_fresh_def)
  show ?case
  proof (cases "o_is_logic_error (h ! a)")
    case True
    show ?thesis
    proof (cases "o_definitions_errors h (h ! a)")
      case None
      with "2.prems"(1) a True show ?thesis by simp
    next
      case (Some d)
      show ?thesis
      proof (cases d)
        case (Inl x)
        with "2.prems"(1) a True Some show ?thesis by simp
      next
        case (Inr ob)
        show ?thesis
        proof (cases ob)
          case None
          with "2.prems"(1) a True Some Inr show ?thesis by simp
        next
          case (Some buckets)
          have de: "o_definitions_errors h (h ! a) = Some (Inr (Some buckets))"
            using \<open>o_definitions_errors h (h ! a) = Some d\<close> Inr Some by simp
          have lp: "o_logic_loop f h a offset
                      (int (length (o_document_path (h ! a))) - offset) buckets = Some (h', r)"
            using "2.prems"(1) a True de by simp
          from o_definitions_errors_fresh [OF de fr]
          have bf: "\<forall>b\<in>set buckets. \<forall>c\<in>set (snd b). n \<le> c" .
          from "2.IH"(1) [OF _ True de [THEN sym, THEN sym] _ _ lp bf "2.prems"(3)] a
          show ?thesis using Inr Some by simp
        qed
      qed
    qed
  next
    case False
    show ?thesis
    proof (cases "o_is_group_error (h ! a)")
      case ng: False
      with "2.prems"(1) a False show ?thesis by simp
    next
      case g: True
      show ?thesis
      proof (cases "o_for_child_errors (h ! a)")
        case (Inl x)
        with "2.prems"(1) a False g show ?thesis by simp
      next
        case (Inr es)
        have lp: "o_group_loop f h a offset
                    (int (length (o_document_path (h ! a))) - offset) es = Some (h', r)"
          using "2.prems"(1) a False g Inr by simp
        from o_for_child_errors_fresh [OF Inr fr] have ef: "\<forall>c\<in>set es. n \<le> c" .
        from "2.IH"(2) [OF _ False g Inr lp ef "2.prems"(3)] a
        show ?thesis by simp
      qed
    qed
  qed
next
  case (3 f h a offset child_start)
  then show ?case by simp
next
  case (4 f h a offset child_start c rest)
  from "4.prems"(1) have c: "c < length h" and a: "a < length h" by (auto split: if_splits)
  let ?h1 = "h[c := o_set_document_path
                 (o_document_path (h ! a) @ py_slice_from child_start (o_document_path (h ! c)))
                 (h ! c)]"
  from "4.prems"(2) have nc: "n \<le> c" and nrest: "\<forall>c\<in>set rest. n \<le> c" by simp_all
  have i1: "map o_info ?h1 = map o_info h" using c by (rule map_o_info_update)
  have t1: "take n ?h1 = take n h" using nc by simp
  have f1: "store_fresh n ?h1" using "4.prems"(3) i1 by (rule store_fresh_same_info)
  from "4.prems"(1) c a obtain h2 r2 where
    rw: "o_rewrite_error_path f ?h1 c offset = Some (h2, r2)"
    and rest: "(case r2 of Some x \<Rightarrow> Some (h2, Some x)
                | None \<Rightarrow> o_group_loop f h2 a offset child_start rest) = Some (h', r)"
    by (auto simp: Let_def split: option.splits)
  from "4.IH"(1) [OF _ refl refl rw nc f1] c a
  have t2: "take n h2 = take n ?h1" and i2: "map o_info h2 = map o_info ?h1" by simp_all
  have f2: "store_fresh n h2" using f1 i2 by (rule store_fresh_same_info)
  show ?case
  proof (cases r2)
    case (Some x)
    with rest have "h' = h2" by simp
    with t1 t2 i1 i2 show ?thesis by simp
  next
    case None
    with rest have lp: "o_group_loop f h2 a offset child_start rest = Some (h', r)" by simp
    from "4.IH"(2) [OF _ refl refl rw _ _ lp nrest f2] c a None
    show ?thesis using t1 t2 i1 i2 by simp
  qed
next
  case (5 f h a offset child_start)
  then show ?case by simp
next
  case (6 f h a offset child_start i definition_errors rest)
  from "6.prems"(1) have a: "a < length h" by (auto split: if_splits)
  let ?p = "o_document_path (h ! a) @ [SStr (nodename (o_rule (h ! a)) i)]"
  from "6.prems"(2) have nd: "\<forall>c\<in>set definition_errors. n \<le> c"
    and nrest: "\<forall>b\<in>set rest. \<forall>c\<in>set (snd b). n \<le> c" by simp_all
  from "6.prems"(1) a obtain h1 r1 where
    dl: "o_definition_loop f h ?p offset child_start definition_errors = Some (h1, r1)"
    and rest: "(case r1 of Some x \<Rightarrow> Some (h1, Some x)
                | None \<Rightarrow> o_logic_loop f h1 a offset child_start rest) = Some (h', r)"
    by (auto simp: Let_def split: option.splits)
  from "6.IH"(1) [OF _ refl dl nd "6.prems"(3)] a
  have t1: "take n h1 = take n h" and i1: "map o_info h1 = map o_info h" by simp_all
  have f1: "store_fresh n h1" using "6.prems"(3) i1 by (rule store_fresh_same_info)
  show ?case
  proof (cases r1)
    case (Some x)
    with rest have "h' = h1" by simp
    with t1 i1 show ?thesis by simp
  next
    case None
    with rest have lp: "o_logic_loop f h1 a offset child_start rest = Some (h', r)" by simp
    from "6.IH"(2) [OF _ refl dl _ _ lp nrest f1] a None
    show ?thesis using t1 i1 by simp
  qed
next
  case (7 f h new_path offset child_start)
  then show ?case by simp
next
  case (8 f h new_path offset child_start c rest)
  from "8.prems"(1) have c: "c < length h" by (auto split: if_splits)
  let ?h1 = "h[c := o_set_document_path
                 (new_path @ py_slice_from child_start (o_document_path (h ! c))) (h ! c)]"
  from "8.prems"(2) have nc: "n \<le> c" and nrest: "\<forall>c\<in>set rest. n \<le> c" by simp_all
  have i1: "map o_info ?h1 = map o_info h" using c by (rule map_o_info_update)
  have t1: "take n ?h1 = take n h" using nc by simp
  have f1: "store_fresh n ?h1" using "8.prems"(3) i1 by (rule store_fresh_same_info)
  from "8.prems"(1) c obtain h2 r2 where
    rw: "o_rewrite_error_path f ?h1 c (offset + 1) = Some (h2, r2)"
    and rest: "(case r2 of Some x \<Rightarrow> Some (h2, Some x)
                | None \<Rightarrow> o_definition_loop f h2 new_path offset child_start rest) = Some (h', r)"
    by (auto simp: Let_def split: option.splits)
  from "8.IH"(1) [OF _ refl refl rw nc f1] c
  have t2: "take n h2 = take n ?h1" and i2: "map o_info h2 = map o_info ?h1" by simp_all
  have f2: "store_fresh n h2" using f1 i2 by (rule store_fresh_same_info)
  show ?case
  proof (cases r2)
    case (Some x)
    with rest have "h' = h2" by simp
    with t1 t2 i1 i2 show ?thesis by simp
  next
    case None
    with rest have lp: "o_definition_loop f h2 new_path offset child_start rest = Some (h', r)"
      by simp
    from "8.IH"(2) [OF _ refl refl rw _ _ lp nrest f2] c None
    show ?thesis using t1 t2 i1 i2 by simp
  qed
qed

lemma read_prefix:
  "closed_store h \<Longrightarrow> take (length h) h' = h \<Longrightarrow> a < length h \<Longrightarrow>
     read_error f h' a = read_error f h a"
  "closed_store h \<Longrightarrow> take (length h) h' = h \<Longrightarrow> info_below (length h) i \<Longrightarrow>
     read_info f h' i = read_info f h i"
  "closed_store h \<Longrightarrow> take (length h) h' = h \<Longrightarrow> \<forall>c\<in>set as. c < length h \<Longrightarrow>
     read_list f h' as = read_list f h as"
proof (induction f h a and f h i and f h as rule: read_error_read_info_read_list.induct)
  case (1 h a)
  then show ?case by simp
next
  case (2 f h a)
  have "length (take (length h) h') = length h"
    using "2.prems"(2) by simp
  then have len: "length h \<le> length h'" by simp
  have "take (length h) h' ! a = h' ! a"
    using "2.prems"(3) by simp
  then have nth: "h' ! a = h ! a"
    using "2.prems"(2) by simp
  have "h ! a \<in> set h" using "2.prems"(3) by simp
  with "2.prems"(1) have ib: "info_below (length h) (o_info (h ! a))"
    by (simp add: closed_store_def)
  from "2.IH" [OF _ "2.prems"(1,2) ib] "2.prems"(3)
  have "read_info f h' (o_info (h ! a)) = read_info f h (o_info (h ! a))" by simp
  then show ?case using len nth "2.prems"(3) by (simp split: option.splits)
next
  case (3 f h)
  then show ?case by simp
next
  case (4 f h v rest)
  from "4.prems"(3) have "info_below (length h) rest" by (simp add: info_below_def)
  from "4.IH" [OF "4.prems"(1,2) this] show ?case by simp
next
  case (5 f h es rest)
  from "5.prems"(3) have es: "\<forall>c\<in>set es. c < length h" and rest: "info_below (length h) rest"
    by (simp_all add: info_below_def)
  from "5.IH"(1) [OF "5.prems"(1,2) es]
  have l: "read_list f h' es = read_list f h es" .
  show ?case
  proof (cases "read_list f h es")
    case None
    with l show ?thesis by simp
  next
    case (Some es')
    from "5.IH"(2) [OF Some "5.prems"(1,2) rest] l Some show ?thesis by simp
  qed
next
  case (6 f h)
  then show ?case by simp
next
  case (7 f h a as)
  from "7.prems"(3) have a: "a < length h" and as: "\<forall>c\<in>set as. c < length h" by simp_all
  from "7.IH"(1) [OF "7.prems"(1,2) a]
  have l: "read_error f h' a = read_error f h a" .
  show ?case
  proof (cases "read_error f h a")
    case None
    with l show ?thesis by simp
  next
    case (Some e)
    from "7.IH"(2) [OF Some "7.prems"(1,2) as] l Some show ?thesis by simp
  qed
qed

lemma lists_in_groupsD:
  "lists_in_groups e \<Longrightarrow> Children es \<in> set (info e) \<Longrightarrow> c \<in> set es \<Longrightarrow> lists_in_groups c"
  by (subst (asm) lists_in_groups.simps) (auto split: info_item.splits)

lemma lists_in_groups_plain:
  "lists_in_groups e \<Longrightarrow> \<not> is_group_error e \<Longrightarrow> x \<in> set (info e) \<Longrightarrow> \<exists>v. x = Payload v"
  by (subst (asm) lists_in_groups.simps, cases x) (auto split: info_item.splits)

lemma for_child_errors_in_info:
  assumes "for_child_errors e = Inr es" and "c \<in> set es"
  shows "Children es \<in> set (info e)"
proof -
  from assms(1) obtain x i' where i: "info e = x # i'" and it: "iter_errors (Some x) = Inr es"
    by (auto simp: for_child_errors_def child_errors_def split: if_splits list.splits)
  from it assms(2) have "x = Children es"
    by (cases x; cases "case x of Payload v \<Rightarrow> v") (auto split: if_splits)
  with i show ?thesis by simp
qed

lemma lists_in_groups_child:
  "lists_in_groups e \<Longrightarrow> for_child_errors e = Inr es \<Longrightarrow> c \<in> set es \<Longrightarrow> lists_in_groups c"
  using for_child_errors_in_info lists_in_groupsD by blast

lemma lists_in_groups_bucket:
  assumes "lists_in_groups e" and "definitions_errors e = Inr (Some b)"
    and "(i, pcs) \<in> set b" and "(p, c) \<in> set pcs"
  shows "lists_in_groups c"
proof -
  from assms(2) obtain es where es: "for_child_errors e = Inr es"
    and b: "definitions_buckets (length (schema_path e)) (enumerate 0 es) [] = Inr b"
    by (auto simp: definitions_errors_def split: if_splits sum.splits)
  from definitions_buckets_members [OF b assms(3,4)] have "(p, c) \<in> set (enumerate 0 es)"
    by simp
  then have "c \<in> set es" by (auto simp: in_set_enumerate_eq)
  with assms(1) es show ?thesis by (rule lists_in_groups_child)
qed

lemma format_piece_rp:
  assumes "lists_in_groups e" and "\<not> is_group_error e"
  shows "format_piece rp1 fld e p = format_piece rp2 fld e p"
proof (cases p)
  case (Pos n)
  show ?thesis
  proof (cases "n < length (info e)")
    case True
    then have "info e ! n \<in> set (info e)" by simp
    from lists_in_groups_plain [OF assms this] obtain v where "info e ! n = Payload v" ..
    then show ?thesis by (simp add: Pos)
  next
    case False
    then show ?thesis by (simp add: Pos)
  qed
qed simp_all

lemma format_message_rp_plain:
  assumes "lists_in_groups e" and "\<not> is_group_error e"
  shows "format_message rp1 fld e = format_message rp2 fld e"
proof -
  have "format_piece rp1 fld e = format_piece rp2 fld e"
    using format_piece_rp [OF assms] by (intro ext)
  then show ?thesis by (simp add: format_message_def split: option.splits)
qed

lemma catalogue_logic_no_pos:
  assumes "map_of messages c = Some t" and "c AND 0x10 \<noteq> 0"
  shows "\<forall>p\<in>set t. \<exists>s. p = Lit s"
proof -
  from assms(1) have "(c, t) \<in> set messages" by (rule map_of_SomeD)
  then show ?thesis using assms(2) by (auto simp: messages_def)
qed

lemma format_message_rp_logic:
  assumes "is_logic_error e"
  shows "format_message rp1 fld e = format_message rp2 fld e"
proof (cases "map_of messages (code e)")
  case None
  then show ?thesis by (simp add: format_message_def)
next
  case (Some t)
  from assms have "code e AND 0x10 \<noteq> 0"
    by (simp add: is_logic_error_def LOGICAL_def ERROR_GROUP_def)
  from catalogue_logic_no_pos [OF Some this]
  have "format_piece rp1 fld e p = format_piece rp2 fld e p" if "p \<in> set t" for p
    using that by auto
  then have "mapM_err (format_piece rp1 fld e) t = mapM_err (format_piece rp2 fld e) t"
    by (intro mapM_err_cong) simp_all
  then show ?thesis by (simp add: format_message_def Some)
qed

lemma mapM_err_Inr_set:
  "mapM_err f xs = Inr ys \<Longrightarrow> y \<in> set ys \<Longrightarrow> \<exists>x\<in>set xs. f x = Inr y"
  by (induction xs arbitrary: ys) (auto split: sum.splits)

lemma lists_in_groups_set_document_path [simp]:
  "lists_in_groups (set_document_path p e) = lists_in_groups e"
  using lists_in_groups.simps [of "set_document_path p e"] lists_in_groups.simps [of e]
  by simp

lemma lists_in_groups_set_children:
  assumes "lists_in_groups e" and "\<forall>c\<in>set es. lists_in_groups c"
  shows "lists_in_groups (set_children es e)"
proof (cases e)
  case (ValidationError dp sp cd r k v i)
  show ?thesis
  proof (cases i)
    case Nil
    with assms(1) ValidationError show ?thesis by simp
  next
    case (Cons x i')
    show ?thesis
    proof (cases x)
      case (Payload w)
      with assms(1) ValidationError Cons show ?thesis by simp
    next
      case (Children old)
      have g: "is_group_error (ValidationError dp sp cd r k v (Children es # i'))
                 = is_group_error e"
        by (simp add: is_group_error_def ValidationError)
      from assms(1) have "is_group_error e"
        and rest: "\<forall>x\<in>set i'. case x of Payload v \<Rightarrow> True
                      | Children es \<Rightarrow> \<forall>c\<in>set es. lists_in_groups c"
        by (subst (asm) lists_in_groups.simps; auto simp: ValidationError Cons Children)+
      then show ?thesis using assms(2) g
        by (subst lists_in_groups.simps) (simp add: ValidationError Cons Children)
    qed
  qed
qed

lemma set_fold_update:
  "set (fold (\<lambda>(p, c) es'. es'[p := c]) ups es) \<subseteq> set es \<union> snd ` set ups"
proof (induction ups arbitrary: es)
  case Nil
  then show ?case by simp
next
  case (Cons u ups)
  obtain p c where u: "u = (p, c)" by (cases u)
  have "set (es[p := c]) \<subseteq> insert c (set es)" by (rule set_update_subset_insert)
  with Cons [of "es[p := c]"] show ?case by (auto simp: u)
qed

lemma rewrite_keeps_lists_in_groups:
  "lists_in_groups e \<Longrightarrow> rewrite_error_path e off = Inr e' \<Longrightarrow> lists_in_groups e'"
proof (induction "esize e" arbitrary: e off e' rule: less_induct)
  case less
  note IH = less.hyps and wt = less.prems(1) and rw = less.prems(2)
  show ?case
  proof (cases "is_logic_error e")
    case True
    from rw True have rl: "rewrite_logic_error_path e off = Inr e'"
      by (simp add: rewrite_error_path.simps)
    let ?cs = "int (length (document_path e)) - off"
    let ?G = "\<lambda>i (p, child_error).
                 case rewrite_error_path
                        (set_document_path
                           ((document_path e @ [SStr (nodename (rule e) i)])
                              @ py_slice_from ?cs (document_path child_error))
                           child_error)
                        (off + 1) of
                   Inl x \<Rightarrow> Inl x
                 | Inr child' \<Rightarrow> Inr (p, child')"
    let ?F = "\<lambda>(i, definition_errors). mapM_err (?G i) definition_errors"
    from rl obtain buckets written es where
      de: "definitions_errors e = Inr (Some buckets)"
      and wr: "mapM_err ?F buckets = Inr written"
      and es: "for_child_errors e = Inr es"
      and e': "e' = (if concat written = [] then e
                     else set_children (fold (\<lambda>(p, child') es'. es'[p := child'])
                                             (concat written) es) e)"
      by (subst (asm) rewrite_logic_error_path.simps)
         (auto simp: Let_def split: sum.splits option.splits)
    have new: "lists_in_groups c'" if "(p, c') \<in> set (concat written)" for p c'
    proof -
      from that obtain ys where ys: "ys \<in> set written" and pc: "(p, c') \<in> set ys" by auto
      from mapM_err_Inr_set [OF wr ys] obtain i pcs where
        b: "(i, pcs) \<in> set buckets" and m: "mapM_err (?G i) pcs = Inr ys"
        by auto
      from mapM_err_Inr_set [OF m pc] obtain p0 c where
        c: "(p0, c) \<in> set pcs" and g: "?G i (p0, c) = Inr (p, c')"
        by auto
      let ?c1 = "set_document_path
                   ((document_path e @ [SStr (nodename (rule e) i)])
                      @ py_slice_from ?cs (document_path c)) c"
      from g have r: "rewrite_error_path ?c1 (off + 1) = Inr c'"
        by (auto split: sum.splits)
      have "lists_in_groups c" using wt de b c by (rule lists_in_groups_bucket)
      then have w1: "lists_in_groups ?c1" by simp
      have "esize ?c1 < esize e" using definitions_errors_child [OF de b c] by simp
      from IH [OF this w1 r] show ?thesis .
    qed
    show ?thesis
    proof (cases "concat written = []")
      case True
      with e' wt show ?thesis by simp
    next
      case False
      have "\<forall>c\<in>set (fold (\<lambda>(p, child') es'. es'[p := child']) (concat written) es).
               lists_in_groups c"
      proof
        fix c assume "c \<in> set (fold (\<lambda>(p, child') es'. es'[p := child']) (concat written) es)"
        with set_fold_update [of "concat written" es]
        have "c \<in> set es \<or> c \<in> snd ` set (concat written)" by auto
        then show "lists_in_groups c"
        proof
          assume "c \<in> set es"
          with wt es show ?thesis by (rule lists_in_groups_child)
        next
          assume "c \<in> snd ` set (concat written)"
          then obtain p where "(p, c) \<in> set (concat written)" by force
          then show ?thesis by (rule new)
        qed
      qed
      with False e' wt show ?thesis by (simp add: lists_in_groups_set_children)
    qed
  next
    case False
    show ?thesis
    proof (cases "is_group_error e")
      case ng: False
      with rw False wt show ?thesis by (simp add: rewrite_error_path.simps)
    next
      case True
      from rw False True have rg: "rewrite_group_error_path e off = Inr e'"
        by (simp add: rewrite_error_path.simps)
      let ?cs = "int (length (document_path e)) - off"
      let ?F = "\<lambda>child_error.
                  rewrite_error_path
                    (set_document_path
                       (document_path e @ py_slice_from ?cs (document_path child_error))
                       child_error)
                    off"
      from rg obtain es es' where es: "for_child_errors e = Inr es"
        and m: "mapM_err ?F es = Inr es'" and e': "e' = set_children es' e"
        by (subst (asm) rewrite_group_error_path.simps)
           (auto simp: Let_def split: sum.splits)
      have "\<forall>c'\<in>set es'. lists_in_groups c'"
      proof
        fix c' assume "c' \<in> set es'"
        from mapM_err_Inr_set [OF m this] obtain c where c: "c \<in> set es" and r: "?F c = Inr c'"
          by auto
        let ?c1 = "set_document_path
                     (document_path e @ py_slice_from ?cs (document_path c)) c"
        have "lists_in_groups c" using wt es c by (rule lists_in_groups_child)
        then have w1: "lists_in_groups ?c1" by simp
        have "esize ?c1 < esize e" using esize_child [OF es c] by simp
        from IH [OF this w1 r] show "lists_in_groups c'" .
      qed
      with e' wt show ?thesis by (simp add: lists_in_groups_set_children)
    qed
  qed
qed

lemma insert_rp:
  "lists_in_groups e \<Longrightarrow>
     (\<forall>t. insert_group_error rp1 t e = insert_group_error rp2 t e)
     \<and> (is_logic_error e \<longrightarrow> (\<forall>t. insert_logic_error rp1 t e = insert_logic_error rp2 t e))"
proof (induction "esize e" arbitrary: e rule: less_induct)
  case less
  note IH = less.hyps and wt = less.prems
  have grp: "insert_group_error rp1 t e = insert_group_error rp2 t e" for t
  proof (cases "for_child_errors e")
    case (Inl x)
    then show ?thesis by (simp add: insert_group_error.simps)
  next
    case (Inr es)
    have "foldM_err
            (\<lambda>tree child_error.
               if is_logic_error child_error then insert_logic_error rp1 tree child_error
               else if is_group_error child_error then insert_group_error rp1 tree child_error
               else (case format_message rp1 (field child_error) child_error of
                       Inl x \<Rightarrow> Inl x
                     | Inr m \<Rightarrow> insert_error tree (document_path child_error) (Msg m)))
            t es
        = foldM_err
            (\<lambda>tree child_error.
               if is_logic_error child_error then insert_logic_error rp2 tree child_error
               else if is_group_error child_error then insert_group_error rp2 tree child_error
               else (case format_message rp2 (field child_error) child_error of
                       Inl x \<Rightarrow> Inl x
                     | Inr m \<Rightarrow> insert_error tree (document_path child_error) (Msg m)))
            t es"
    proof (rule foldM_err_cong [OF refl refl])
      fix c u assume c: "c \<in> set es"
      have wc: "lists_in_groups c" using wt Inr c by (rule lists_in_groups_child)
      have sz: "esize c < esize e" using Inr c by (rule esize_child)
      from IH [OF sz wc] format_message_rp_plain [OF wc, of rp1 _ rp2]
      show "(if is_logic_error c then insert_logic_error rp1 u c
             else if is_group_error c then insert_group_error rp1 u c
             else (case format_message rp1 (field c) c of
                     Inl x \<Rightarrow> Inl x
                   | Inr m \<Rightarrow> insert_error u (document_path c) (Msg m)))
          = (if is_logic_error c then insert_logic_error rp2 u c
             else if is_group_error c then insert_group_error rp2 u c
             else (case format_message rp2 (field c) c of
                     Inl x \<Rightarrow> Inl x
                   | Inr m \<Rightarrow> insert_error u (document_path c) (Msg m)))"
        by simp
    qed
    then show ?thesis by (simp add: insert_group_error.simps Inr)
  qed
  have lgc: "insert_logic_error rp1 t e = insert_logic_error rp2 t e" if lg: "is_logic_error e" for t
  proof -
    have fm: "format_message rp1 (field e) e = format_message rp2 (field e) e"
      using lg by (rule format_message_rp_logic)
    show ?thesis
    proof (cases "format_message rp2 (field e) e")
      case (Inl x)
      with fm show ?thesis by (simp add: insert_logic_error.simps)
    next
      case (Inr m)
      show ?thesis
      proof (cases "insert_error t (document_path e) (Msg m)")
        case (Inl x)
        with fm Inr show ?thesis by (simp add: insert_logic_error.simps)
      next
        case t1: (Inr tree1)
        show ?thesis
        proof (cases "definitions_errors e")
          case (Inl x)
          with fm Inr t1 show ?thesis by (simp add: insert_logic_error.simps)
        next
          case de: (Inr ob)
          show ?thesis
          proof (cases ob)
            case None
            with fm Inr t1 de show ?thesis by (simp add: insert_logic_error.simps)
          next
            case (Some buckets)
            have de': "definitions_errors e = Inr (Some buckets)" using de Some by simp
            have "foldM_err
                    (\<lambda>tree (i, definition_errors).
                       foldM_err
                         (\<lambda>tree (p, child_error).
                            if is_logic_error child_error
                            then insert_logic_error rp1 tree child_error
                            else if is_group_error child_error
                            then insert_group_error rp1 tree child_error
                            else (case format_message rp1 (field e) child_error of
                                    Inl x \<Rightarrow> Inl x
                                  | Inr m \<Rightarrow>
                                      insert_error tree (document_path child_error) (Msg m)))
                         tree definition_errors)
                    tree1 buckets
                = foldM_err
                    (\<lambda>tree (i, definition_errors).
                       foldM_err
                         (\<lambda>tree (p, child_error).
                            if is_logic_error child_error
                            then insert_logic_error rp2 tree child_error
                            else if is_group_error child_error
                            then insert_group_error rp2 tree child_error
                            else (case format_message rp2 (field e) child_error of
                                    Inl x \<Rightarrow> Inl x
                                  | Inr m \<Rightarrow>
                                      insert_error tree (document_path child_error) (Msg m)))
                         tree definition_errors)
                    tree1 buckets"
            proof (rule foldM_err_cong [OF refl refl], clarify)
              fix i pcs u assume b: "(i, pcs) \<in> set buckets"
              show "foldM_err
                         (\<lambda>tree (p, child_error).
                            if is_logic_error child_error
                            then insert_logic_error rp1 tree child_error
                            else if is_group_error child_error
                            then insert_group_error rp1 tree child_error
                            else (case format_message rp1 (field e) child_error of
                                    Inl x \<Rightarrow> Inl x
                                  | Inr m \<Rightarrow>
                                      insert_error tree (document_path child_error) (Msg m)))
                         u pcs
                  = foldM_err
                         (\<lambda>tree (p, child_error).
                            if is_logic_error child_error
                            then insert_logic_error rp2 tree child_error
                            else if is_group_error child_error
                            then insert_group_error rp2 tree child_error
                            else (case format_message rp2 (field e) child_error of
                                    Inl x \<Rightarrow> Inl x
                                  | Inr m \<Rightarrow>
                                      insert_error tree (document_path child_error) (Msg m)))
                         u pcs"
              proof (rule foldM_err_cong [OF refl refl], clarify)
                fix p c u' assume c: "(p, c) \<in> set pcs"
                have wc: "lists_in_groups c" using wt de' b c by (rule lists_in_groups_bucket)
                have sz: "esize c < esize e" using de' b c by (rule definitions_errors_child)
                from IH [OF sz wc] format_message_rp_plain [OF wc, of rp1 _ rp2]
                show "(if is_logic_error c then insert_logic_error rp1 u' c
                       else if is_group_error c then insert_group_error rp1 u' c
                       else (case format_message rp1 (field e) c of
                               Inl x \<Rightarrow> Inl x
                             | Inr m \<Rightarrow> insert_error u' (document_path c) (Msg m)))
                    = (if is_logic_error c then insert_logic_error rp2 u' c
                       else if is_group_error c then insert_group_error rp2 u' c
                       else (case format_message rp2 (field e) c of
                               Inl x \<Rightarrow> Inl x
                             | Inr m \<Rightarrow> insert_error u' (document_path c) (Msg m)))"
                  by simp
              qed
            qed
            with fm Inr t1 de' show ?thesis by (simp add: insert_logic_error.simps)
          qed
        qed
      qed
    qed
  qed
  from grp lgc show ?case by blast
qed

lemma add_rp:
  assumes "lists_in_groups e"
  shows "add rp1 t e = add rp2 t e"
proof (cases "rewrite_error_path e 0")
  case (Inl x)
  then show ?thesis by (simp add: add_def)
next
  case (Inr e')
  from rewrite_keeps_lists_in_groups [OF assms Inr] have wt: "lists_in_groups e'" .
  from insert_rp [OF wt, of rp1 rp2] format_message_rp_plain [OF wt, of rp1 _ rp2]
  have "add_dispatch rp1 t e' = add_dispatch rp2 t e'"
    by (simp add: add_dispatch_def)
  with Inr show ?thesis by (simp add: add_def)
qed

text \<open>
  Every tree that \<open>add\<close> builds from the empty tree is well-formed, and on the example
  store \<open>add\<close> on the store returns what \<open>add\<close> returns on the error read from it.
\<close>

lemma node_add_wf:
  assumes "\<forall>kn\<in>set descs. wf_node (Suc depth) (snd kn)"
    and "node_add tt lt depth descs e = Inr descs'"
  shows "\<forall>kn\<in>set descs'. wf_node (Suc depth) (snd kn)"
proof -
  from assms(2) have "depth < length (path_of tt e)"
    by (subst (asm) node_add.simps) (auto simp: Let_def split: if_splits)
  from node_add_ok [OF assms(1) this, of lt] assms(2) show ?thesis by auto
qed

lemma foldM_add_wf:
  assumes "\<And>c t t'. c \<in> set es \<Longrightarrow> wf_tree t \<Longrightarrow> ErrorTree_add tt lt t c = Inr t' \<Longrightarrow> wf_tree t'"
    and "wf_tree t" and "foldM_err (ErrorTree_add tt lt) t es = Inr t'"
  shows "wf_tree t'"
  using assms
proof (induction es arbitrary: t)
  case Nil
  then show ?case by simp
next
  case (Cons c es)
  from Cons.prems(3) obtain t1 where t1: "ErrorTree_add tt lt t c = Inr t1"
    and rest: "foldM_err (ErrorTree_add tt lt) t1 es = Inr t'"
    by (auto split: sum.splits)
  have "wf_tree t1" using Cons.prems(1) [OF _ Cons.prems(2) t1] by simp
  with Cons.IH [of t1] Cons.prems(1) rest show ?case by auto
qed

lemma tree_add_wf:
  "wf_tree t \<Longrightarrow> ErrorTree_add tt lt t e = Inr t' \<Longrightarrow> wf_tree t'"
proof (induction tt lt t e arbitrary: t' rule: ErrorTree_add.induct)
  case (1 tt lt self error)
  show ?case
  proof (cases "path_of tt error = []")
    case True
    from "1.prems"(2) True
    have "t' = ErrorTree (py_sort lt (tree_errors self @ [error])) (tree_descendants self)"
      by (subst (asm) ErrorTree_add.simps) simp
    with "1.prems"(1) show ?thesis by (simp add: wf_tree_def)
  next
    case False
    from "1.prems"(2) False obtain descs where
      na: "node_add tt lt 0 (tree_descendants self) error = Inr descs"
      by (subst (asm) ErrorTree_add.simps) (auto split: sum.splits)
    have wfd: "\<forall>kn\<in>set (tree_descendants self). wf_node (Suc 0) (snd kn)"
      using "1.prems"(1) by (simp add: wf_tree_def)
    from node_add_wf [OF wfd na] have wf1: "wf_tree (ErrorTree (tree_errors self) descs)"
      by (simp add: wf_tree_def)
    show ?thesis
    proof (cases "is_group_error error")
      case ng: False
      from "1.prems"(2) False na ng have "t' = ErrorTree (tree_errors self) descs"
        by (subst (asm) ErrorTree_add.simps) simp
      with wf1 show ?thesis by simp
    next
      case g: True
      from "1.prems"(2) False na g obtain es where es: "for_child_errors error = Inr es"
        and fd: "foldM_err (ErrorTree_add tt lt) (ErrorTree (tree_errors self) descs) es = Inr t'"
        by (subst (asm) ErrorTree_add.simps) (auto split: sum.splits)
      show ?thesis
        using "1.IH" [OF False na g es] wf1 fd by (rule foldM_add_wf)
    qed
  qed
qed

lemma ErrorTree_init_wf:
  assumes "ErrorTree_init tt lt es = Inr t"
  shows "wf_tree t"
proof -
  have e: "wf_tree (ErrorTree [] [])" by (simp add: wf_tree_def)
  have step: "wf_tree u'" if "c \<in> set es" "wf_tree u" "ErrorTree_add tt lt u c = Inr u'"
    for c u u'
    using that(2,3) by (rule tree_add_wf)
  from assms have "foldM_err (ErrorTree_add tt lt) (ErrorTree [] []) es = Inr t"
    by (simp add: ErrorTree_init_def)
  with step e show ?thesis by (rule foldM_add_wf)
qed

lemma store_add_example_agrees:
  "read_error 5 store_example 0 =
     Some (ValidationError [SStr ''price''] [SStr ''price'', SStr ''anyof''] 0x93 (Some ''anyof'')
             VNone (VStr ''x'')
             [Children
                [ValidationError [SStr ''price'']
                   [SStr ''price'', SStr ''anyof'', SInt 0, SStr ''type'']
                   0x24 (Some ''type'') (VStr ''integer'') (VStr ''x'') [],
                 ValidationError [SStr ''price'']
                   [SStr ''price'', SStr ''anyof'', SInt 1, SStr ''type'']
                   0x24 (Some ''type'') (VStr ''float'') (VStr ''x'') []]])
   \<and> map_option snd (store_add 5 repr0 [] store_example 0)
       = Some (add repr0 []
           (ValidationError [SStr ''price''] [SStr ''price'', SStr ''anyof''] 0x93 (Some ''anyof'')
             VNone (VStr ''x'')
             [Children
                [ValidationError [SStr ''price'']
                   [SStr ''price'', SStr ''anyof'', SInt 0, SStr ''type'']
                   0x24 (Some ''type'') (VStr ''integer'') (VStr ''x'') [],
                 ValidationError [SStr ''price'']
                   [SStr ''price'', SStr ''anyof'', SInt 1, SStr ''type'']
                   0x24 (Some ''type'') (VStr ''float'') (VStr ''x'') []]]))"
  by code_simp

text \<open>
  The two classification tests read one bit each. In the catalogue, every code with the
  logic bit \<open>0x10\<close> has the group bit \<open>0x80\<close> as well.
\<close>

lemma classification_bits:
  "is_group_error e = (code e AND 0x80 \<noteq> 0)" "is_logic_error e = (code e AND 0x10 \<noteq> 0)"
  by (simp_all add: is_group_error_def is_logic_error_def ERROR_GROUP_def LOGICAL_def)

lemma catalogue_logic_codes_are_group_codes:
  "list_all (\<lambda>d. def_code d AND 0x10 = 0 \<or> def_code d AND 0x80 \<noteq> 0) error_definitions"
  by (simp add: error_definitions_def error_definition_defs)

text \<open>
  What \<open>_insert_error\<close> does to a well-formed report: it appends the message to the
  messages at the path, changes the messages at no other path, and leaves the report
  well formed.
\<close>

lemma wf_report_Nil [simp]: "wf_report []"
  by (simp add: wf_report.simps)

lemma wf_reportD:
  assumes "wf_report t" and "map_of t k = Some l"
  shows "l \<noteq> []" and "\<exists>st. last l = Sub st \<and> wf_report st"
proof -
  from assms(2) have mem: "(k, l) \<in> set t" by (rule map_of_SomeD)
  from assms(1) have "\<forall>kl\<in>set t.
            if snd kl = [] then False
            else (case last (snd kl) of Msg s \<Rightarrow> False | Sub subtree \<Rightarrow> wf_report subtree)"
    by (subst (asm) wf_report.simps) (elim conjE, assumption)
  from bspec [OF this mem]
  have a: "l \<noteq> [] \<and> (case last l of Msg s \<Rightarrow> False | Sub subtree \<Rightarrow> wf_report subtree)"
    by (simp split: if_splits)
  then show "l \<noteq> []" by simp
  from a show "\<exists>st. last l = Sub st \<and> wf_report st" by (cases "last l") auto
qed

lemma wf_report_distinct: "wf_report t \<Longrightarrow> distinct (map fst t)"
  by (subst (asm) wf_report.simps) simp

lemma wf_reportI:
  assumes "distinct (map fst t)"
    and "\<And>k l. map_of t k = Some l \<Longrightarrow> l \<noteq> [] \<and> (\<exists>st. last l = Sub st \<and> wf_report st)"
  shows "wf_report t"
proof (subst wf_report.simps, intro conjI ballI)
  show "distinct (map fst t)" by fact
next
  fix kl assume kl: "kl \<in> set t"
  obtain k l where [simp]: "kl = (k, l)" by (cases kl)
  from kl assms(1) have "map_of t k = Some l" by simp
  from assms(2) [OF this]
  show "if snd kl = [] then False
        else (case last (snd kl) of Msg s \<Rightarrow> False | Sub subtree \<Rightarrow> wf_report subtree)"
    by auto
qed

lemma keys_dict_set: "fst ` set (dict_set d k v) = insert k (fst ` set d)"
  by (induction d k v rule: dict_set.induct) auto

lemma distinct_dict_set: "distinct (map fst d) \<Longrightarrow> distinct (map fst (dict_set d k v))"
proof (induction d k v rule: dict_set.induct)
  case (1 k v)
  then show ?case by simp
next
  case (2 k' v' kvs k v)
  then show ?case using keys_dict_set [of kvs k v] by auto
qed

lemma map_of_dict_set_fun: "map_of (dict_set d k v) = (map_of d)(k \<mapsto> v)"
  by (rule ext) (simp add: map_of_dict_set)

lemma dict_update_props:
  "distinct (map fst other) \<Longrightarrow>
     map_of (dict_update d other) = map_of d ++ map_of other"
  "distinct (map fst d) \<Longrightarrow> distinct (map fst (dict_update d other))"
  "fst ` set (dict_update d other) = fst ` set d \<union> fst ` set other"
proof -
  show "distinct (map fst other) \<Longrightarrow> map_of (dict_update d other) = map_of d ++ map_of other"
    unfolding dict_update_def
  proof (induction other arbitrary: d)
    case Nil
    then show ?case by simp
  next
    case (Cons kv other)
    obtain k v where kv: "kv = (k, v)" by (cases kv)
    from Cons.prems have d: "distinct (map fst other)" and nk: "k \<notin> fst ` set other"
      by (auto simp: kv)
    from nk have none: "map_of other k = None" by (simp add: map_of_eq_None_iff)
    have "map_of (fold (\<lambda>(k, v) d'. dict_set d' k v) ((k, v) # other) d)
            = map_of (fold (\<lambda>(k, v) d'. dict_set d' k v) other (dict_set d k v))"
      by simp
    also have "\<dots> = map_of (dict_set d k v) ++ map_of other"
      using Cons.IH [OF d] .
    also have "\<dots> = map_of d ++ map_of ((k, v) # other)"
    proof (rule ext)
      fix x
      show "(map_of (dict_set d k v) ++ map_of other) x = (map_of d ++ map_of ((k, v) # other)) x"
        using none
        by (cases "x = k") (simp_all add: map_add_def map_of_dict_set split: option.splits)
    qed
    finally show ?case unfolding kv .
  qed
  show "distinct (map fst d) \<Longrightarrow> distinct (map fst (dict_update d other))"
    unfolding dict_update_def
    by (induction other arbitrary: d) (auto simp: distinct_dict_set)
  show "fst ` set (dict_update d other) = fst ` set d \<union> fst ` set other"
    unfolding dict_update_def
    by (induction other arbitrary: d) (simp_all add: keys_dict_set split_beta)
qed

lemma messages_at_Nil [simp]: "messages_at [] q = []"
  by (cases "([] :: tree, q)" rule: messages_at.cases) simp_all

lemma messages_at_cong:
  "map_of t = map_of t' \<Longrightarrow> messages_at t q = messages_at t' q"
  by (cases "(t, q)" rule: messages_at.cases) simp_all

lemma msgs_of_append [simp]: "msgs_of (xs @ ys) = msgs_of xs @ msgs_of ys"
  by (simp add: msgs_of_def)

lemma msgs_of_simps [simp]:
  "msgs_of [] = []" "msgs_of (Msg m # l) = m # msgs_of l" "msgs_of (Sub st # l) = msgs_of l"
  by (simp_all add: msgs_of_def)

lemma msgs_of_butlast:
  "l \<noteq> [] \<Longrightarrow> last l = Sub st \<Longrightarrow> msgs_of (butlast l) = msgs_of l"
proof -
  assume "l \<noteq> []" and "last l = Sub st"
  then have "l = butlast l @ [Sub st]" by (metis append_butlast_last_id)
  then have "msgs_of l = msgs_of (butlast l @ [Sub st])" by simp
  then show ?thesis by simp
qed

lemma insert_error_spec:
  "wf_report t \<Longrightarrow> p \<noteq> [] \<Longrightarrow>
     \<exists>t'. insert_error t p (Msg m) = Inr t' \<and> wf_report t'
        \<and> fst ` set t \<subseteq> fst ` set t'
        \<and> messages_at t' p = messages_at t p @ [m]
        \<and> (\<forall>q. q \<noteq> p \<longrightarrow> messages_at t' q = messages_at t q)"
proof (induction t p "Msg m" arbitrary: rule: insert_error.induct)
  case (1 tree)
  then show ?case by simp
next
  case (2 tree fld)
  show ?case
  proof (cases "map_of tree fld")
    case None
    let ?t' = "dict_set tree fld [Msg m, Sub []]"
    have ins: "insert_error tree [fld] (Msg m) = Inr ?t'" using None by simp
    have d: "distinct (map fst ?t')"
      using wf_report_distinct [OF "2.prems"(1)] by (rule distinct_dict_set)
    have wf: "wf_report ?t'"
    proof (rule wf_reportI [OF d])
      fix k l assume "map_of ?t' k = Some l"
      then show "l \<noteq> [] \<and> (\<exists>st. last l = Sub st \<and> wf_report st)"
        using wf_reportD [OF "2.prems"(1), of k l]
        by (auto simp: map_of_dict_set split: if_splits)
    qed
    have at: "messages_at ?t' [fld] = messages_at tree [fld] @ [m]"
      using None by (simp add: map_of_dict_set)
    have other: "messages_at ?t' q = messages_at tree q" if "q \<noteq> [fld]" for q
      using that None
      by (cases "(tree, q)" rule: messages_at.cases) (auto simp: map_of_dict_set)
    from ins wf at other show ?thesis by (auto simp: keys_dict_set)
  next
    case (Some l)
    from wf_reportD [OF "2.prems"(1) Some] obtain st where l: "l \<noteq> []" "last l = Sub st"
      and wst: "wf_report st" by auto
    let ?l' = "butlast l @ [Msg m, last l]"
    let ?t' = "dict_set tree fld ?l'"
    have ins: "insert_error tree [fld] (Msg m) = Inr ?t'" using Some l by simp
    have d: "distinct (map fst ?t')"
      using wf_report_distinct [OF "2.prems"(1)] by (rule distinct_dict_set)
    have wf: "wf_report ?t'"
    proof (rule wf_reportI [OF d])
      fix k l0 assume "map_of ?t' k = Some l0"
      then show "l0 \<noteq> [] \<and> (\<exists>st. last l0 = Sub st \<and> wf_report st)"
        using wf_reportD [OF "2.prems"(1), of k l0] l wst
        by (auto simp: map_of_dict_set split: if_splits)
    qed
    have at: "messages_at ?t' [fld] = messages_at tree [fld] @ [m]"
      using Some l msgs_of_butlast [OF l] by (simp add: map_of_dict_set)
    have other: "messages_at ?t' q = messages_at tree q" if "q \<noteq> [fld]" for q
      using that Some l
      by (cases "(tree, q)" rule: messages_at.cases) (auto simp: map_of_dict_set)
    from ins wf at other show ?thesis by (auto simp: keys_dict_set)
  qed
next
  case (3 tree fld v va)
  let ?rest = "v # va"
  let ?tree1 = "if map_of tree fld = None then dict_set tree fld [Sub []] else tree"
  let ?l = "case map_of tree fld of None \<Rightarrow> [Sub []] | Some l \<Rightarrow> l"
  have "\<exists>st. ?l \<noteq> [] \<and> last ?l = Sub st \<and> wf_report st"
  proof (cases "map_of tree fld")
    case None
    then show ?thesis by simp
  next
    case (Some l)
    with wf_reportD [OF "3.prems"(1) Some] show ?thesis by auto
  qed
  then obtain st where l: "?l \<noteq> []" "last ?l = Sub st" and wst: "wf_report st" by auto
  have stmsg: "messages_at tree (fld # q') = messages_at st q'" if "q' \<noteq> []" for q'
  proof (cases "map_of tree fld")
    case None
    with l(2) have "st = []" by simp
    with None that show ?thesis
      by (cases q'; cases "tl q'") simp_all
  next
    case (Some l0)
    with l that show ?thesis by (cases q') simp_all
  qed
  from "3.hyps" [OF refl refl l(1) l(2) wst] obtain new_tree where
    ins': "insert_error st ?rest (Msg m) = Inr new_tree" and wnew: "wf_report new_tree"
    and keys: "fst ` set st \<subseteq> fst ` set new_tree"
    and at': "messages_at new_tree ?rest = messages_at st ?rest @ [m]"
    and other': "\<And>q. q \<noteq> ?rest \<Longrightarrow> messages_at new_tree q = messages_at st q"
    by auto
  let ?u = "dict_update st new_tree"
  let ?l' = "butlast ?l @ [Sub ?u]"
  let ?t' = "dict_set ?tree1 fld ?l'"
  have ins: "insert_error tree (fld # ?rest) (Msg m) = Inr ?t'"
    using l ins' by (simp add: Let_def)
  have mu: "map_of ?u = map_of new_tree"
  proof -
    have "map_of ?u = map_of st ++ map_of new_tree"
      using wf_report_distinct [OF wnew] by (rule dict_update_props(1))
    also have "\<dots> = map_of new_tree"
    proof (rule ext)
      fix k show "(map_of st ++ map_of new_tree) k = map_of new_tree k"
      proof (cases "map_of new_tree k")
        case None
        then have "k \<notin> fst ` set new_tree" by (simp add: map_of_eq_None_iff)
        with keys have "k \<notin> fst ` set st" by auto
        then have "map_of st k = None" by (simp add: map_of_eq_None_iff)
        with None show ?thesis by (simp add: map_add_def)
      next
        case (Some a)
        then show ?thesis by (simp add: map_add_def)
      qed
    qed
    finally show ?thesis .
  qed
  have du: "distinct (map fst ?u)"
    using wf_report_distinct [OF wst] by (rule dict_update_props(2))
  have wu: "wf_report ?u"
  proof (rule wf_reportI [OF du])
    fix k l0 assume "map_of ?u k = Some l0"
    then have "map_of new_tree k = Some l0" by (simp add: mu)
    from wf_reportD [OF wnew this]
    show "l0 \<noteq> [] \<and> (\<exists>st. last l0 = Sub st \<and> wf_report st)" by simp
  qed
  have d1: "distinct (map fst ?tree1)"
    using wf_report_distinct [OF "3.prems"(1)] by (simp add: distinct_dict_set)
  have d: "distinct (map fst ?t')" using d1 by (rule distinct_dict_set)
  have m1: "map_of ?tree1 k = Some l0 \<Longrightarrow> k \<noteq> fld \<Longrightarrow> map_of tree k = Some l0" for k l0
    by (auto simp: map_of_dict_set split: if_splits)
  have wf: "wf_report ?t'"
  proof (rule wf_reportI [OF d])
    fix k l0 assume a: "map_of ?t' k = Some l0"
    show "l0 \<noteq> [] \<and> (\<exists>st. last l0 = Sub st \<and> wf_report st)"
    proof (cases "k = fld")
      case True
      with a have "l0 = ?l'" by (simp add: map_of_dict_set)
      then show ?thesis using wu by simp
    next
      case False
      with a have "map_of ?tree1 k = Some l0" by (simp add: map_of_dict_set)
      from m1 [OF this False] wf_reportD [OF "3.prems"(1)] show ?thesis by simp
    qed
  qed
  have get: "map_of ?t' fld = Some ?l'" by (simp add: map_of_dict_set)
  have get_other: "map_of ?t' k = map_of tree k" if "k \<noteq> fld" for k
    using that by (auto simp: map_of_dict_set)
  have sub: "messages_at ?t' (fld # q') = messages_at new_tree q'" if "q' \<noteq> []" for q'
  proof -
    from that obtain x xs where q': "q' = x # xs" by (cases q') auto
    have "messages_at ?t' (fld # q') = messages_at ?u q'"
      unfolding q' by (simp add: get del: dict_set.simps)
    also have "\<dots> = messages_at new_tree q'" using mu by (rule messages_at_cong)
    finally show ?thesis .
  qed
  have at: "messages_at ?t' (fld # ?rest) = messages_at tree (fld # ?rest) @ [m]"
    using sub [of ?rest] stmsg [of ?rest] at' by simp
  have other: "messages_at ?t' q = messages_at tree q" if q: "q \<noteq> fld # ?rest" for q
  proof (cases q)
    case Nil
    then show ?thesis by simp
  next
    case (Cons k q')
    show ?thesis
    proof (cases "k = fld")
      case False
      have "messages_at ?t' (k # q') = messages_at tree (k # q')"
        using get_other [OF False]
        by (cases q') (simp_all del: dict_set.simps)
      then show ?thesis by (simp add: Cons)
    next
      case True
      show ?thesis
      proof (cases "q' = []")
        case True
        have "msgs_of ?l' = msgs_of ?l"
          using msgs_of_butlast [OF l] by simp
        moreover have "messages_at tree [fld] = (case map_of tree fld of None \<Rightarrow> [] | Some l \<Rightarrow> msgs_of l)"
          by simp
        moreover have "messages_at ?t' [fld] = msgs_of ?l'"
          by (simp add: get del: dict_set.simps)
        ultimately show ?thesis using \<open>k = fld\<close> True Cons
          by (cases "map_of tree fld") simp_all
      next
        case False
        from q Cons \<open>k = fld\<close> have ne: "q' \<noteq> ?rest" by simp
        from sub [OF False] other' [OF ne] stmsg [OF False]
        show ?thesis using Cons \<open>k = fld\<close> by simp
      qed
    qed
  qed
  have keys': "fst ` set tree \<subseteq> fst ` set ?t'"
    by (auto simp: keys_dict_set)
  from ins wf at other keys' show ?case by blast
qed

lemma fold_insert_spec:
  "wf_report t \<Longrightarrow> \<forall>pm\<in>set pms. fst pm \<noteq> [] \<Longrightarrow>
     \<exists>t'. foldM_err (\<lambda>t pm. insert_error t (fst pm) (Msg (snd pm))) t pms = Inr t'
        \<and> wf_report t'
        \<and> (\<forall>q. messages_at t' q = messages_at t q @ map snd (filter (\<lambda>pm. fst pm = q) pms))"
proof (induction pms arbitrary: t)
  case Nil
  then show ?case by simp
next
  case (Cons pm pms)
  from Cons.prems(2) have ne: "fst pm \<noteq> []" and rest: "\<forall>pm\<in>set pms. fst pm \<noteq> []" by simp_all
  from insert_error_spec [OF Cons.prems(1) ne, of "snd pm"] obtain t1 where
    i1: "insert_error t (fst pm) (Msg (snd pm)) = Inr t1" and w1: "wf_report t1"
    and at: "messages_at t1 (fst pm) = messages_at t (fst pm) @ [snd pm]"
    and other: "\<And>q. q \<noteq> fst pm \<Longrightarrow> messages_at t1 q = messages_at t q"
    by auto
  from Cons.IH [OF w1 rest] obtain t' where
    f: "foldM_err (\<lambda>t pm. insert_error t (fst pm) (Msg (snd pm))) t1 pms = Inr t'"
    and w': "wf_report t'"
    and m': "\<And>q. messages_at t' q = messages_at t1 q @ map snd (filter (\<lambda>pm. fst pm = q) pms)"
    by auto
  have "messages_at t' q = messages_at t q @ map snd (filter (\<lambda>pm. fst pm = q) (pm # pms))" for q
    using m' [of q] at other [of q] by (cases "q = fst pm") auto
  with f w' i1 show ?case by simp
qed


text \<open>
  An error whose children are distinct objects that hold no errors themselves. Its deep
  copy is a block at the end of the store, the copy followed by the copies of the
  children in order; the rewriting pass writes every child's copy once; and \<open>add\<close> on
  the store is the insertion of the children as rewritten.
\<close>

lemma o_set_info_id [simp]: "o_set_info (o_info x) x = x"
  by (cases x) simp

lemma o_sel_set_info [simp]:
  "o_document_path (o_set_info i x) = o_document_path x"
  "o_schema_path (o_set_info i x) = o_schema_path x"
  "o_code (o_set_info i x) = o_code x"
  "o_rule (o_set_info i x) = o_rule x"
  "o_constraint (o_set_info i x) = o_constraint x"
  "o_value (o_set_info i x) = o_value x"
  by (cases x; simp)+

lemma o_sel_set_document_path [simp]:
  "o_document_path (o_set_document_path p x) = p"
  "o_schema_path (o_set_document_path p x) = o_schema_path x"
  "o_code (o_set_document_path p x) = o_code x"
  "o_rule (o_set_document_path p x) = o_rule x"
  "o_constraint (o_set_document_path p x) = o_constraint x"
  "o_value (o_set_document_path p x) = o_value x"
  by (cases x; simp)+

lemma o_class_set [simp]:
  "o_is_group_error (o_set_info i x) = o_is_group_error x"
  "o_is_logic_error (o_set_info i x) = o_is_logic_error x"
  "o_is_group_error (o_set_document_path p x) = o_is_group_error x"
  "o_is_logic_error (o_set_document_path p x) = o_is_logic_error x"
  by (simp_all add: o_is_group_error_def o_is_logic_error_def)

lemma upt_block: "[n..<n + Suc k] = n # [Suc n..<Suc n + k]"
  using upt_conv_Cons [of n "n + Suc k"] by simp

lemma read_list_0: "read_list 0 h es = Some es' \<Longrightarrow> es = []"
  by (cases es) simp_all

lemma read_info_0:
  "read_info 0 h i = Some vi \<Longrightarrow> read_info f h' i = Some vi"
proof (induction i arbitrary: vi)
  case Nil
  then show ?case by simp
next
  case (Cons x i)
  show ?case
  proof (cases x)
    case (HPayload v)
    with Cons show ?thesis by (auto split: option.splits)
  next
    case (HChildren es)
    with Cons.prems obtain es' where "read_list 0 h es = Some es'"
      by (auto split: option.splits)
    then have "es = []" by (rule read_list_0)
    with Cons HChildren show ?thesis by (auto split: option.splits)
  qed
qed

lemma deepcopy_info_0:
  "read_info 0 h i = Some vi \<Longrightarrow> deepcopy_info f H memo i = Some (H, memo, i)"
proof (induction i arbitrary: vi)
  case Nil
  then show ?case by simp
next
  case (Cons x i)
  show ?case
  proof (cases x)
    case (HPayload v)
    with Cons show ?thesis by (auto split: option.splits)
  next
    case (HChildren es)
    with Cons.prems obtain es' where "read_list 0 h es = Some es'"
      by (auto split: option.splits)
    then have "es = []" by (rule read_list_0)
    with Cons HChildren show ?thesis by (auto split: option.splits)
  qed
qed

lemma read_error_1D:
  assumes "read_error (Suc 0) h c = Some e"
  shows "c < length h"
    and "\<exists>vi. read_info 0 h (o_info (h ! c)) = Some vi
           \<and> e = ValidationError (o_document_path (h ! c)) (o_schema_path (h ! c)) (o_code (h ! c))
                   (o_rule (h ! c)) (o_constraint (h ! c)) (o_value (h ! c)) vi"
  using assms by (auto split: if_splits option.splits)

lemma read_error_leaf:
  assumes "read_error (Suc 0) h c = Some e" and "c' < length h'"
    and "h' ! c' = o_set_document_path p (h ! c)"
  shows "read_error (Suc f) h' c' = Some (set_document_path p e)"
proof -
  from read_error_1D [OF assms(1)] obtain vi where
    vi: "read_info 0 h (o_info (h ! c)) = Some vi"
    and e: "e = ValidationError (o_document_path (h ! c)) (o_schema_path (h ! c)) (o_code (h ! c))
                   (o_rule (h ! c)) (o_constraint (h ! c)) (o_value (h ! c)) vi"
    by auto
  from read_info_0 [OF vi] have "read_info f h' (o_info (h ! c)) = Some vi" .
  then show ?thesis using assms(2,3) by (simp add: e)
qed

lemma deepcopy_leaf:
  assumes "c < length H" and "read_info 0 h0 (o_info (H ! c)) = Some vi"
    and "map_of memo c = None"
  shows "deepcopy (Suc f) H memo c = Some (H @ [H ! c], (c, length H) # memo, length H)"
  using assms deepcopy_info_0 [OF assms(2), of f "H @ [o_set_info [] (H ! c)]" "(c, length H) # memo"]
  by simp

lemma deepcopy_list_leaves:
  "distinct cs \<Longrightarrow>
   \<forall>c\<in>set cs. c < length H \<and> map_of memo c = None
        \<and> (\<exists>vi. read_info 0 h0 (o_info (H ! c)) = Some vi) \<Longrightarrow>
   \<exists>memo'. deepcopy_list (Suc f) H memo cs
     = Some (H @ map (\<lambda>c. H ! c) cs, memo', [length H..<length H + length cs])"
proof (induction cs arbitrary: H memo)
  case Nil
  then show ?case by simp
next
  case (Cons c cs)
  from Cons.prems have c: "c < length H" "map_of memo c = None"
    and vi: "\<exists>vi. read_info 0 h0 (o_info (H ! c)) = Some vi"
    and d: "distinct cs" and nc: "c \<notin> set cs" by auto
  from vi obtain vi where vi: "read_info 0 h0 (o_info (H ! c)) = Some vi" ..
  let ?H1 = "H @ [H ! c]"
  let ?m1 = "(c, length H) # memo"
  have dc: "deepcopy (Suc f) H memo c = Some (?H1, ?m1, length H)"
    using c(1) vi c(2) by (rule deepcopy_leaf)
  have pre: "\<forall>c'\<in>set cs. c' < length ?H1 \<and> map_of ?m1 c' = None
        \<and> (\<exists>vi. read_info 0 h0 (o_info (?H1 ! c')) = Some vi)"
  proof
    fix c' assume c': "c' \<in> set cs"
    with Cons.prems(2) have a: "c' < length H" "map_of memo c' = None"
      "\<exists>vi. read_info 0 h0 (o_info (H ! c')) = Some vi" by auto
    from c' nc have "c' \<noteq> c" by auto
    with a show "c' < length ?H1 \<and> map_of ?m1 c' = None
        \<and> (\<exists>vi. read_info 0 h0 (o_info (?H1 ! c')) = Some vi)"
      by (simp add: nth_append)
  qed
  from Cons.IH [OF d pre] obtain memo' where
    rec: "deepcopy_list (Suc f) ?H1 ?m1 cs
      = Some (?H1 @ map (\<lambda>c. ?H1 ! c) cs, memo', [length ?H1..<length ?H1 + length cs])"
    by blast
  have m: "map (\<lambda>c. ?H1 ! c) cs = map (\<lambda>c. H ! c) cs"
    using Cons.prems(2) by (auto simp: nth_append)
  have u: "length H # [length ?H1..<length ?H1 + length cs]
             = [length H..<length H + length (c # cs)]"
    using upt_block [of "length H" "length cs"] by simp
  show ?case
    using dc rec m u by simp
qed

lemma deepcopy_flat:
  assumes a: "a < length h" and i: "o_info (h ! a) = HChildren cs # rest"
    and rest: "read_info 0 h rest = Some rest'"
    and d: "distinct cs" and na: "a \<notin> set cs"
    and leaves: "\<forall>c\<in>set cs. c < length h \<and> (\<exists>vi. read_info 0 h (o_info (h ! c)) = Some vi)"
  shows "\<exists>memo. deepcopy (Suc (Suc f)) h [] a
     = Some ((h @ [o_set_info (HChildren [Suc (length h)..<Suc (length h) + length cs] # rest)
                      (h ! a)])
               @ map (\<lambda>c. h ! c) cs, memo, length h)"
proof -
  let ?H = "h @ [o_set_info [] (h ! a)]"
  let ?m = "[(a, length h)]"
  have pre: "\<forall>c\<in>set cs. c < length ?H \<and> map_of ?m c = None
        \<and> (\<exists>vi. read_info 0 h (o_info (?H ! c)) = Some vi)"
  proof
    fix c assume c: "c \<in> set cs"
    with leaves have "c < length h" "\<exists>vi. read_info 0 h (o_info (h ! c)) = Some vi" by auto
    moreover from c na have "c \<noteq> a" by auto
    ultimately show "c < length ?H \<and> map_of ?m c = None
        \<and> (\<exists>vi. read_info 0 h (o_info (?H ! c)) = Some vi)"
      by (simp add: nth_append)
  qed
  from deepcopy_list_leaves [OF d pre, of f] obtain memo' where
    l: "deepcopy_list (Suc f) ?H ?m cs
      = Some (?H @ map (\<lambda>c. ?H ! c) cs, memo', [length ?H..<length ?H + length cs])"
    by blast
  have m: "map (\<lambda>c. ?H ! c) cs = map (\<lambda>c. h ! c) cs"
    using leaves by (auto simp: nth_append)
  have r: "deepcopy_info (Suc f) (?H @ map (\<lambda>c. h ! c) cs) memo' rest
             = Some (?H @ map (\<lambda>c. h ! c) cs, memo', rest)"
    using rest by (rule deepcopy_info_0)
  have "deepcopy_info (Suc f) ?H ?m (HChildren cs # rest)
          = Some (?H @ map (\<lambda>c. h ! c) cs, memo',
                  HChildren [Suc (length h)..<Suc (length h) + length cs] # rest)"
    using l m r by simp
  then show ?thesis
    using a i by (simp add: list_update_append)
qed

lemma o_group_loop_plain:
  "a < length H \<Longrightarrow> o_document_path (H ! a) = dp \<Longrightarrow>
   \<forall>c\<in>set as. c < length H \<and> c \<noteq> a \<and> \<not> o_is_group_error (H ! c) \<and> \<not> o_is_logic_error (H ! c) \<Longrightarrow>
   o_group_loop (Suc f) H a off cstart as
     = Some (fold (\<lambda>c H. H[c := o_set_document_path
                                   (dp @ py_slice_from cstart (o_document_path (H ! c))) (H ! c)])
               as H, None)"
proof (induction as arbitrary: H)
  case Nil
  then show ?case by simp
next
  case (Cons c as)
  let ?H1 = "H[c := o_set_document_path (dp @ py_slice_from cstart (o_document_path (H ! c))) (H ! c)]"
  from Cons.prems have c: "c < length H" "c \<noteq> a" "\<not> o_is_group_error (H ! c)"
    "\<not> o_is_logic_error (H ! c)" by auto
  have rw: "o_rewrite_error_path (Suc f) ?H1 c off = Some (?H1, None)"
    using c by simp
  have a1: "a < length ?H1" using Cons.prems(1) by simp
  have dp1: "o_document_path (?H1 ! a) = dp" using Cons.prems(2) c(2) by simp
  have pre: "\<forall>c'\<in>set as. c' < length ?H1 \<and> c' \<noteq> a \<and> \<not> o_is_group_error (?H1 ! c')
                \<and> \<not> o_is_logic_error (?H1 ! c')"
  proof
    fix c' assume "c' \<in> set as"
    with Cons.prems(3) have "c' < length H" "c' \<noteq> a" "\<not> o_is_group_error (H ! c')"
      "\<not> o_is_logic_error (H ! c')" by auto
    then show "c' < length ?H1 \<and> c' \<noteq> a \<and> \<not> o_is_group_error (?H1 ! c')
                \<and> \<not> o_is_logic_error (?H1 ! c')"
      using c by (cases "c' = c") simp_all
  qed
  from Cons.IH [OF a1 dp1 pre] rw c Cons.prems(1,2)
  show ?case by (simp add: Let_def)
qed

lemma o_definition_loop_plain:
  "\<forall>c\<in>set as. c < length H \<and> \<not> o_is_group_error (H ! c) \<and> \<not> o_is_logic_error (H ! c) \<Longrightarrow>
   o_definition_loop (Suc f) H np off cstart as
     = Some (fold (\<lambda>c H. H[c := o_set_document_path
                                   (np @ py_slice_from cstart (o_document_path (H ! c))) (H ! c)])
               as H, None)"
proof (induction as arbitrary: H)
  case Nil
  then show ?case by simp
next
  case (Cons c as)
  let ?H1 = "H[c := o_set_document_path (np @ py_slice_from cstart (o_document_path (H ! c))) (H ! c)]"
  from Cons.prems have c: "c < length H" "\<not> o_is_group_error (H ! c)"
    "\<not> o_is_logic_error (H ! c)" by auto
  have rw: "o_rewrite_error_path (Suc f) ?H1 c (off + 1) = Some (?H1, None)"
    using c by simp
  have pre: "\<forall>c'\<in>set as. c' < length ?H1 \<and> \<not> o_is_group_error (?H1 ! c')
                \<and> \<not> o_is_logic_error (?H1 ! c')"
  proof
    fix c' assume "c' \<in> set as"
    with Cons.prems have "c' < length H" "\<not> o_is_group_error (H ! c')"
      "\<not> o_is_logic_error (H ! c')" by auto
    then show "c' < length ?H1 \<and> \<not> o_is_group_error (?H1 ! c')
                \<and> \<not> o_is_logic_error (?H1 ! c')"
      using c by (cases "c' = c") simp_all
  qed
  from Cons.IH [OF pre] rw c
  show ?case by (simp add: Let_def)
qed

lemma fold_update_block:
  "fold (\<lambda>c H. H[c := g (H ! c)]) [length xs..<length xs + length ys] (xs @ ys @ zs)
     = xs @ map g ys @ zs"
proof (induction ys arbitrary: xs)
  case Nil
  then show ?case by simp
next
  case (Cons y ys)
  have u: "[length xs..<length xs + length (y # ys)]
             = length xs # [length (xs @ [g y])..<length (xs @ [g y]) + length ys]"
    using upt_block [of "length xs" "length ys"] by simp
  have s: "(xs @ (y # ys) @ zs)[length xs := g ((xs @ (y # ys) @ zs) ! length xs)]
             = (xs @ [g y]) @ ys @ zs"
    by simp
  show ?case
    unfolding u using Cons.IH [of "xs @ [g y]"] s by simp
qed

lemma read_list_block:
  "list_all2 (\<lambda>y e. read_error (Suc 0) [y] 0 = Some e) ys es \<Longrightarrow>
   read_list (Suc f) (xs @ ys @ zs) [length xs..<length xs + length ys] = Some es"
proof (induction ys es arbitrary: xs rule: list_all2_induct)
  case Nil
  then show ?case by simp
next
  case (Cons y ys e es)
  have u: "[length xs..<length xs + length (y # ys)]
             = length xs # [length (xs @ [y])..<length (xs @ [y]) + length ys]"
    using upt_block [of "length xs" "length ys"] by simp
  have "[y] ! 0 = o_set_document_path (o_document_path y) y" by (cases y) simp
  from read_error_leaf [OF Cons.hyps(1), of "length xs" "xs @ (y # ys) @ zs" "o_document_path y" f]
  have r: "read_error (Suc f) (xs @ (y # ys) @ zs) (length xs)
             = Some (set_document_path (o_document_path y) e)"
    by (cases y) simp
  from read_error_1D(2) [OF Cons.hyps(1)] have "document_path e = o_document_path y" by auto
  then have "set_document_path (o_document_path y) e = e" by (cases e) simp
  with r have r': "read_error (Suc f) (xs @ (y # ys) @ zs) (length xs) = Some e" by simp
  from Cons.IH [of "xs @ [y]"] have
    "read_list (Suc f) (xs @ (y # ys) @ zs) [length (xs @ [y])..<length (xs @ [y]) + length ys]
       = Some es" by simp
  with r' show ?case unfolding u by simp
qed

lemma foldM_plain_children:
  "list_all2 (\<lambda>e m. \<not> is_group_error e \<and> \<not> is_logic_error e
                \<and> format_message rp (field e) e = Inr m) es ms \<Longrightarrow>
   foldM_err
     (\<lambda>t c. if is_logic_error c then insert_logic_error rp t c
            else if is_group_error c then insert_group_error rp t c
            else (case format_message rp (field c) c of
                    Inl x \<Rightarrow> Inl x
                  | Inr m \<Rightarrow> insert_error t (document_path c) (Msg m))) t es
   = foldM_err (\<lambda>t pm. insert_error t (fst pm) (Msg (snd pm))) t (zip (map document_path es) ms)"
proof (induction es ms arbitrary: t rule: list_all2_induct)
  case Nil
  then show ?case by simp
next
  case (Cons e es m ms)
  then show ?case by (simp split: sum.splits)
qed


lemma read_flat:
  assumes ys: "list_all2 (\<lambda>y e. read_error (Suc 0) [y] 0 = Some e) ys es'"
    and rest: "read_info 0 h0 rest = Some rest'"
    and i: "o_info P = HChildren [Suc (length h)..<Suc (length h) + length ys] # rest"
  shows "read_error (Suc (Suc f)) ((h @ [P]) @ ys) (length h)
     = Some (ValidationError (o_document_path P) (o_schema_path P) (o_code P) (o_rule P)
               (o_constraint P) (o_value P) (Children es' # rest'))"
proof -
  from read_list_block [OF ys, of f "h @ [P]" "[]"]
  have l: "read_list (Suc f) ((h @ [P]) @ ys) [Suc (length h)..<Suc (length h) + length ys] = Some es'"
    by simp
  from read_info_0 [OF rest]
  have r: "read_info (Suc f) ((h @ [P]) @ ys) rest = Some rest'" .
  show ?thesis using l r i by (simp add: nth_append)
qed

lemma leaf_values:
  assumes "list_all2 (\<lambda>c e. read_error (Suc 0) h c = Some e) cs es"
  shows "list_all2 (\<lambda>y e. read_error (Suc 0) [y] 0 = Some e)
           (map (\<lambda>c. o_set_document_path (pf (o_document_path (h ! c))) (h ! c)) cs)
           (map (\<lambda>e. set_document_path (pf (document_path e)) e) es)"
proof -
  have "read_error (Suc 0) [o_set_document_path (pf (o_document_path (h ! c))) (h ! c)] 0
          = Some (set_document_path (pf (document_path e)) e)"
    if "read_error (Suc 0) h c = Some e" for c e
  proof -
    from read_error_1D(2) [OF that] have dp: "document_path e = o_document_path (h ! c)" by auto
    from read_error_leaf [OF that, of 0 "[o_set_document_path (pf (o_document_path (h ! c))) (h ! c)]"
           "pf (o_document_path (h ! c))" 0]
    show ?thesis by (simp add: dp)
  qed
  with assms show ?thesis
    by (simp add: list_all2_map1 list_all2_map2) (erule list_all2_mono, simp)
qed

lemma flat_facts:
  assumes rd: "map (read_error (Suc 0) h) cs = map Some es"
  shows "list_all2 (\<lambda>c e. read_error (Suc 0) h c = Some e) cs es"
    and "\<forall>c\<in>set cs. c < length h \<and> (\<exists>vi. read_info 0 h (o_info (h ! c)) = Some vi)"
    and "list_all (\<lambda>e. \<not> is_group_error e \<and> \<not> is_logic_error e) es \<Longrightarrow>
         \<forall>c\<in>set cs. \<not> o_is_group_error (h ! c) \<and> \<not> o_is_logic_error (h ! c)"
proof -
  from rd have len: "length cs = length es" by (rule map_eq_imp_length_eq)
  have nth: "read_error (Suc 0) h (cs ! j) = Some (es ! j)" if "j < length cs" for j
  proof -
    from that len have "map (read_error (Suc 0) h) cs ! j = map Some es ! j"
      using rd by simp
    with that len show ?thesis by simp
  qed
  show l: "list_all2 (\<lambda>c e. read_error (Suc 0) h c = Some e) cs es"
    using len nth by (simp add: list_all2_conv_all_nth)
  show "\<forall>c\<in>set cs. c < length h \<and> (\<exists>vi. read_info 0 h (o_info (h ! c)) = Some vi)"
  proof
    fix c assume "c \<in> set cs"
    then obtain j where j: "j < length cs" "cs ! j = c" by (auto simp: in_set_conv_nth)
    from nth [OF j(1)] j(2) have "read_error (Suc 0) h c = Some (es ! j)" by simp
    from read_error_1D [OF this]
    show "c < length h \<and> (\<exists>vi. read_info 0 h (o_info (h ! c)) = Some vi)" by auto
  qed
  show "\<forall>c\<in>set cs. \<not> o_is_group_error (h ! c) \<and> \<not> o_is_logic_error (h ! c)"
    if p: "list_all (\<lambda>e. \<not> is_group_error e \<and> \<not> is_logic_error e) es"
  proof
    fix c assume "c \<in> set cs"
    then obtain j where j: "j < length cs" "cs ! j = c" by (auto simp: in_set_conv_nth)
    from nth [OF j(1)] j(2) have r: "read_error (Suc 0) h c = Some (es ! j)" by simp
    from read_error_1D(2) [OF r] have "code (es ! j) = o_code (h ! c)" by auto
    moreover from p j(1) len have "\<not> is_group_error (es ! j) \<and> \<not> is_logic_error (es ! j)"
      by (simp add: list_all_length)
    ultimately show "\<not> o_is_group_error (h ! c) \<and> \<not> o_is_logic_error (h ! c)"
      by (simp add: is_group_error_def is_logic_error_def o_is_group_error_def
            o_is_logic_error_def)
  qed
qed

lemma store_add_group_flat:
  assumes a: "a < length h"
    and grp: "o_is_group_error (h ! a)" and nlog: "\<not> o_is_logic_error (h ! a)"
    and i: "o_info (h ! a) = HChildren cs # rest"
    and rest: "read_info 0 h rest = Some rest'"
    and d: "distinct cs"
    and rd: "map (read_error (Suc 0) h) cs = map Some es"
    and plain: "list_all (\<lambda>e. \<not> is_group_error e \<and> \<not> is_logic_error e) es"
  shows "\<exists>h'. store_add (Suc (Suc f)) rp tree h a
     = Some (h', foldM_err
            (\<lambda>t c. if is_logic_error c then insert_logic_error rp t c
                   else if is_group_error c then insert_group_error rp t c
                   else (case format_message rp (field c) c of
                           Inl x \<Rightarrow> Inl x
                         | Inr m \<Rightarrow> insert_error t (document_path c) (Msg m)))
            tree
            (map (\<lambda>e. set_document_path
                        (o_document_path (h ! a)
                           @ drop (length (o_document_path (h ! a))) (document_path e)) e) es))"
proof -
  let ?n = "length h"
  let ?dp = "o_document_path (h ! a)"
  let ?pf = "\<lambda>p. ?dp @ py_slice_from (int (length ?dp) - 0) p"
  let ?g = "\<lambda>y. o_set_document_path (?pf (o_document_path y)) y"
  let ?P = "o_set_info (HChildren [Suc ?n..<Suc ?n + length cs] # rest) (h ! a)"
  let ?kids = "map (\<lambda>c. h ! c) cs"
  let ?h1 = "(h @ [?P]) @ ?kids"
  let ?h2 = "(h @ [?P]) @ map ?g ?kids"
  let ?es' = "map (\<lambda>e. set_document_path (?pf (document_path e)) e) es"
  note ff = flat_facts [OF rd]
  have na: "a \<notin> set cs"
    using ff(3) [OF plain] grp by auto
  from deepcopy_flat [OF a i rest d na ff(2), of f] obtain memo where
    dc: "deepcopy (Suc (Suc f)) h [] a = Some (?h1, memo, ?n)" by blast
  have pre: "\<forall>c\<in>set [Suc ?n..<Suc ?n + length cs].
      c < length ?h1 \<and> c \<noteq> ?n \<and> \<not> o_is_group_error (?h1 ! c) \<and> \<not> o_is_logic_error (?h1 ! c)"
  proof
    fix c assume "c \<in> set [Suc ?n..<Suc ?n + length cs]"
    then have c: "Suc ?n \<le> c" "c < Suc ?n + length cs" by auto
    then have "?h1 ! c = h ! (cs ! (c - Suc ?n))" by (simp add: nth_append)
    moreover have "cs ! (c - Suc ?n) \<in> set cs" using c by simp
    ultimately show "c < length ?h1 \<and> c \<noteq> ?n \<and> \<not> o_is_group_error (?h1 ! c)
        \<and> \<not> o_is_logic_error (?h1 ! c)"
      using ff(3) [OF plain] c by auto
  qed
  have n1: "?n < length ?h1" by simp
  have pn: "?h1 ! ?n = ?P" by (simp add: nth_append)
  have dpn: "o_document_path (?h1 ! ?n) = ?dp" by (simp add: pn)
  have loop: "o_group_loop (Suc f) ?h1 ?n 0 (int (length ?dp) - 0) [Suc ?n..<Suc ?n + length cs]
                = Some (?h2, None)"
    using o_group_loop_plain [OF n1 dpn pre, of f 0 "int (length ?dp) - 0"]
      fold_update_block [of ?g "h @ [?P]" ?kids "[]"]
    by simp
  have ch: "o_for_child_errors ?P = Inr [Suc ?n..<Suc ?n + length cs]"
    using grp by (simp add: o_for_child_errors_def o_child_errors_def)
  have rw: "o_rewrite_error_path (Suc (Suc f)) ?h1 ?n 0 = Some (?h2, None)"
    using n1 pn grp nlog ch loop by simp
  have vals: "list_all2 (\<lambda>y e. read_error (Suc 0) [y] 0 = Some e) (map ?g ?kids) ?es'"
    using leaf_values [OF ff(1), of ?pf] by (simp add: comp_def)
  have ip: "o_info ?P = HChildren [Suc ?n..<Suc ?n + length (map ?g ?kids)] # rest" by simp
  from read_flat [OF vals rest ip, of f]
  have rdc: "read_error (Suc (Suc f)) ?h2 ?n
     = Some (ValidationError ?dp (o_schema_path (h ! a)) (o_code (h ! a)) (o_rule (h ! a))
               (o_constraint (h ! a)) (o_value (h ! a)) (Children ?es' # rest'))"
    by simp
  let ?e = "ValidationError ?dp (o_schema_path (h ! a)) (o_code (h ! a)) (o_rule (h ! a))
               (o_constraint (h ! a)) (o_value (h ! a)) (Children ?es' # rest')"
  have cl: "is_group_error ?e" "\<not> is_logic_error ?e"
    using grp nlog
    by (simp_all add: is_group_error_def is_logic_error_def o_is_group_error_def
          o_is_logic_error_def)
  have disp: "add_dispatch rp tree ?e = foldM_err
            (\<lambda>t c. if is_logic_error c then insert_logic_error rp t c
                   else if is_group_error c then insert_group_error rp t c
                   else (case format_message rp (field c) c of
                           Inl x \<Rightarrow> Inl x
                         | Inr m \<Rightarrow> insert_error t (document_path c) (Msg m)))
            tree ?es'"
    using cl
    by (simp add: add_dispatch_def)
       (subst insert_group_error.simps, simp add: for_child_errors_Children)
  have "store_add (Suc (Suc f)) rp tree h a = Some (?h2, add_dispatch rp tree ?e)"
    using dc rw rdc by (simp add: store_add_def)
  with disp show ?thesis by (simp add: py_slice_from_def)
qed

lemma upt4: "[m..<m + 4] = [m, Suc m, Suc (Suc m), Suc (Suc (Suc m))]"
proof -
  have "[m..<m + Suc (Suc (Suc (Suc 0)))] = [m, Suc m, Suc (Suc m), Suc (Suc (Suc m))]"
    by (simp only: upt_block add_0_right upt_conv_Nil [OF order_refl])
  then show ?thesis by (simp add: eval_nat_numeral)
qed

lemma store_add_anyof_flat:
  assumes a: "a < length h"
    and g: "h ! a = HError [SStr ''price''] sp 0x93 (Some ''anyof'') k v
                      (HChildren [a1, a2, a3, a4] # rest)"
    and rest: "read_info 0 h rest = Some rest'"
    and d: "distinct [a1, a2, a3, a4]"
    and rd: "map (read_error (Suc 0) h) [a1, a2, a3, a4] = map Some [c1, c2, c3, c4]"
    and plain: "list_all (\<lambda>c. \<not> is_group_error c \<and> \<not> is_logic_error c
                   \<and> length (document_path c) \<le> 1 \<and> length sp < length (schema_path c))
                 [c1, c2, c3, c4]"
    and idx: "map (\<lambda>c. schema_path c ! length sp) [c1, c2, c3, c4]
                 = [SInt 0, SInt 0, SInt 1, SInt 1]"
  shows "\<exists>h'. store_add (Suc (Suc f)) rp tree h a
     = Some (h', add_dispatch rp tree
          (ValidationError [SStr ''price''] sp 0x93 (Some ''anyof'') k v
             (Children
                [set_document_path [SStr ''price'', SStr ''anyof definition 0''] c1,
                 set_document_path [SStr ''price'', SStr ''anyof definition 0''] c2,
                 set_document_path [SStr ''price'', SStr ''anyof definition 1''] c3,
                 set_document_path [SStr ''price'', SStr ''anyof definition 1''] c4] # rest')))"
proof -
  let ?n = "length h"
  let ?p0 = "[SStr ''price'', SStr ''anyof definition 0'']"
  let ?p1 = "[SStr ''price'', SStr ''anyof definition 1'']"
  let ?as = "[Suc ?n, Suc (Suc ?n), Suc (Suc (Suc ?n)), Suc (Suc (Suc (Suc ?n)))]"
  let ?P = "HError [SStr ''price''] sp 0x93 (Some ''anyof'') k v (HChildren ?as # rest)"
  let ?h1 = "h @ [?P, h ! a1, h ! a2, h ! a3, h ! a4]"
  let ?h2 = "h @ [?P, o_set_document_path ?p0 (h ! a1), o_set_document_path ?p0 (h ! a2),
                   o_set_document_path ?p1 (h ! a3), o_set_document_path ?p1 (h ! a4)]"
  have addr: "[Suc ?n..<Suc ?n + length [a1, a2, a3, a4]] = ?as"
    using upt4 [of "Suc ?n"] by simp
  have plain': "list_all (\<lambda>e. \<not> is_group_error e \<and> \<not> is_logic_error e) [c1, c2, c3, c4]"
    using plain by simp
  note ff = flat_facts [OF rd]
  have i: "o_info (h ! a) = HChildren [a1, a2, a3, a4] # rest" by (simp add: g)
  have lg: "o_is_logic_error (h ! a)" "o_is_group_error (h ! a)"
    by (simp_all add: g o_is_logic_error_def o_is_group_error_def LOGICAL_def ERROR_GROUP_def)
  have na: "a \<notin> set [a1, a2, a3, a4]"
    using ff(3) [OF plain'] lg by auto
  have P: "o_set_info (HChildren ?as # rest) (h ! a) = ?P" by (simp add: g)
  from deepcopy_flat [OF a i rest d na ff(2), of f] obtain memo where
    dc: "deepcopy (Suc (Suc f)) h [] a = Some (?h1, memo, ?n)"
    unfolding addr P by auto
  have r: "read_error (Suc 0) h a1 = Some c1" "read_error (Suc 0) h a2 = Some c2"
    "read_error (Suc 0) h a3 = Some c3" "read_error (Suc 0) h a4 = Some c4"
    using rd by simp_all
  have dp: "o_document_path (h ! a1) = document_path c1" "o_document_path (h ! a2) = document_path c2"
    "o_document_path (h ! a3) = document_path c3" "o_document_path (h ! a4) = document_path c4"
    using read_error_1D(2) [OF r(1)] read_error_1D(2) [OF r(2)] read_error_1D(2) [OF r(3)]
      read_error_1D(2) [OF r(4)] by auto
  have spc: "o_schema_path (h ! a1) = schema_path c1" "o_schema_path (h ! a2) = schema_path c2"
    "o_schema_path (h ! a3) = schema_path c3" "o_schema_path (h ! a4) = schema_path c4"
    using read_error_1D(2) [OF r(1)] read_error_1D(2) [OF r(2)] read_error_1D(2) [OF r(3)]
      read_error_1D(2) [OF r(4)] by auto
  have pl: "\<not> o_is_group_error (h ! a1)" "\<not> o_is_logic_error (h ! a1)"
    "\<not> o_is_group_error (h ! a2)" "\<not> o_is_logic_error (h ! a2)"
    "\<not> o_is_group_error (h ! a3)" "\<not> o_is_logic_error (h ! a3)"
    "\<not> o_is_group_error (h ! a4)" "\<not> o_is_logic_error (h ! a4)"
    using ff(3) [OF plain'] by simp_all
  have nth: "?h1 ! ?n = ?P" "?h1 ! Suc ?n = h ! a1" "?h1 ! Suc (Suc ?n) = h ! a2"
    "?h1 ! Suc (Suc (Suc ?n)) = h ! a3" "?h1 ! Suc (Suc (Suc (Suc ?n))) = h ! a4"
    by (simp_all add: nth_append)
  have lgP: "o_is_logic_error ?P" "o_is_group_error ?P"
    by (simp_all add: o_is_logic_error_def o_is_group_error_def LOGICAL_def ERROR_GROUP_def)
  have de: "o_definitions_errors ?h1 ?P
      = Some (Inr (Some [(SInt 0, [Suc ?n, Suc (Suc ?n)]),
                         (SInt 1, [Suc (Suc (Suc ?n)), Suc (Suc (Suc (Suc ?n)))])]))"
    using plain idx lgP
    by (simp add: o_definitions_errors_def o_for_child_errors_def o_child_errors_def nth spc)
  let ?h1a = "h @ [?P, o_set_document_path ?p0 (h ! a1), o_set_document_path ?p0 (h ! a2),
                    h ! a3, h ! a4]"
  have short: "drop (Suc 0) (document_path c1) = []" "drop (Suc 0) (document_path c2) = []"
    "drop (Suc 0) (document_path c3) = []" "drop (Suc 0) (document_path c4) = []"
    using plain by simp_all
  have b0: "o_definition_loop (Suc f) ?h1 ?p0 0 1 [Suc ?n, Suc (Suc ?n)] = Some (?h1a, None)"
  proof -
    have pre: "\<forall>c\<in>set [Suc ?n, Suc (Suc ?n)]. c < length ?h1 \<and> \<not> o_is_group_error (?h1 ! c)
                 \<and> \<not> o_is_logic_error (?h1 ! c)"
      using pl by (simp add: nth)
    show ?thesis
      unfolding o_definition_loop_plain [OF pre]
      by (simp add: nth_append list_update_append py_slice_from_def dp short)
  qed
  have b1: "o_definition_loop (Suc f) ?h1a ?p1 0 1
              [Suc (Suc (Suc ?n)), Suc (Suc (Suc (Suc ?n)))] = Some (?h2, None)"
  proof -
    have pre: "\<forall>c\<in>set [Suc (Suc (Suc ?n)), Suc (Suc (Suc (Suc ?n)))].
                 c < length ?h1a \<and> \<not> o_is_group_error (?h1a ! c)
                 \<and> \<not> o_is_logic_error (?h1a ! c)"
      using pl by (simp add: nth_append)
    show ?thesis
      unfolding o_definition_loop_plain [OF pre]
      by (simp add: nth_append list_update_append py_slice_from_def dp short)
  qed
  have n1a: "?h1a ! ?n = ?P" by (simp add: nth_append)
  have loop: "o_logic_loop (Suc f) ?h1 ?n 0 1
                [(SInt 0, [Suc ?n, Suc (Suc ?n)]),
                 (SInt 1, [Suc (Suc (Suc ?n)), Suc (Suc (Suc (Suc ?n)))])] = Some (?h2, None)"
    by (simp add: b0 b1 nth(1) n1a nodename_anyof del: o_definition_loop.simps)
  have rw: "o_rewrite_error_path (Suc (Suc f)) ?h1 ?n 0 = Some (?h2, None)"
    using lgP by (simp add: de loop nth(1) del: o_logic_loop.simps)
  have vals: "list_all2 (\<lambda>y e. read_error (Suc 0) [y] 0 = Some e)
      [o_set_document_path ?p0 (h ! a1), o_set_document_path ?p0 (h ! a2),
       o_set_document_path ?p1 (h ! a3), o_set_document_path ?p1 (h ! a4)]
      [set_document_path ?p0 c1, set_document_path ?p0 c2,
       set_document_path ?p1 c3, set_document_path ?p1 c4]"
    using read_error_leaf [OF r(1), of 0 "[o_set_document_path ?p0 (h ! a1)]" ?p0 0]
      read_error_leaf [OF r(2), of 0 "[o_set_document_path ?p0 (h ! a2)]" ?p0 0]
      read_error_leaf [OF r(3), of 0 "[o_set_document_path ?p1 (h ! a3)]" ?p1 0]
      read_error_leaf [OF r(4), of 0 "[o_set_document_path ?p1 (h ! a4)]" ?p1 0]
    by simp
  have ip: "o_info ?P = HChildren [Suc ?n..<Suc ?n + length
      [o_set_document_path ?p0 (h ! a1), o_set_document_path ?p0 (h ! a2),
       o_set_document_path ?p1 (h ! a3), o_set_document_path ?p1 (h ! a4)]] # rest"
    using addr by simp
  from read_flat [OF vals rest ip, of f]
  have rdc: "read_error (Suc (Suc f)) ?h2 ?n
     = Some (ValidationError [SStr ''price''] sp 0x93 (Some ''anyof'') k v
             (Children
                [set_document_path ?p0 c1, set_document_path ?p0 c2,
                 set_document_path ?p1 c3, set_document_path ?p1 c4] # rest'))"
    by simp
  show ?thesis
    using dc rw rdc by (simp add: store_add_def)
qed

text \<open>
  When the child list holds one object twice, the copy holds one copy twice, and the
  rewriting pass of a logic error writes it twice: the child's path gets the segment of
  its definition two times, and its messages go one level deeper.
\<close>

lemma store_call_shared_child:
  "map_option snd (store_call 2 repr0 [] shared_child_store [0]) =
     Some (Inr ([(SStr ''price'',
          [Msg ''no definitions validate'',
           Sub [(SStr ''anyof definition 0'',
                 [Sub [(SStr ''anyof definition 0'',
                        [Msg ''must be of integer type'',
                         Msg ''must be of integer type'', Sub []])]])]])],
        [(SStr ''price'',
          [Msg ''no definitions validate'',
           Sub [(SStr ''anyof definition 0'',
                 [Sub [(SStr ''anyof definition 0'',
                        [Msg ''must be of integer type'',
                         Msg ''must be of integer type''])]])]])]))"
  by code_simp

section \<open>Classification and equality\<close>

text \<open>
  C5 fails on the code. \<open>is_logic_error\<close> tests bit \<open>0x10\<close> alone, so an error
  whose code has bit \<open>0x10\<close> and not bit \<open>0x80\<close> is a logic error without being
  a group error. Its \<open>child_errors\<close> is \<open>None\<close>, and both
  \<open>definitions_errors\<close> and \<open>add\<close> raise \<open>TypeError\<close> on it.
\<close>

theorem C5_logic_bit_without_group_bit:
  assumes "code e AND 0x10 \<noteq> 0" and "code e AND 0x80 = 0"
  shows "is_logic_error e \<and> \<not> is_group_error e
         \<and> definitions_errors e = Inl TypeError
         \<and> add rp tree e = Inl TypeError"
proof -
  have l: "is_logic_error e" using assms(1)
    by (simp add: is_logic_error_def LOGICAL_def ERROR_GROUP_def)
  have g: "\<not> is_group_error e" using assms(2)
    by (simp add: is_group_error_def ERROR_GROUP_def)
  have d: "definitions_errors e = Inl TypeError"
    using l g by (simp add: definitions_errors_def for_child_errors_def child_errors_def)
  have "rewrite_error_path e 0 = Inl TypeError"
    using l by (subst rewrite_error_path.simps, subst rewrite_logic_error_path.simps)
               (simp add: d)
  then show ?thesis using l g d by (simp add: add_def)
qed

theorem C5_witness:
  "code logic_bit_only AND 0x10 \<noteq> 0 \<and> code logic_bit_only AND 0x80 = 0
   \<and> is_logic_error logic_bit_only \<and> \<not> is_group_error logic_bit_only
   \<and> definitions_errors logic_bit_only = Inl TypeError
   \<and> add repr0 [] logic_bit_only = Inl TypeError"
proof -
  have a: "code logic_bit_only AND 0x10 \<noteq> 0" by (simp add: logic_bit_only_def)
  have b: "code logic_bit_only AND 0x80 = 0" by (simp add: logic_bit_only_def)
  from C5_logic_bit_without_group_bit [OF a b, of repr0 "[]"] a b show ?thesis by blast
qed

text \<open>
  C8 (as the code has it). Codes are pairwise distinct over all definitions. A rule name
  names exactly one definition, except \<open>dependencies\<close>, \<open>allowed\<close>, \<open>forbidden\<close>
  and \<open>items\<close>, each of which names two.
\<close>

theorem C8_codes_unique:
  "distinct (map def_code error_definitions)
   \<and> filter (\<lambda>r. length (definitions_of_rule r) \<noteq> 1) (remdups rule_names)
       = [''dependencies'', ''allowed'', ''forbidden'', ''items'']
   \<and> map (\<lambda>r. length (definitions_of_rule r))
         [''dependencies'', ''allowed'', ''forbidden'', ''items''] = [2, 2, 2, 2]"
proof (intro conjI)
  show "distinct (map def_code error_definitions)"
    by (simp add: error_definitions_def error_definition_defs)
  show "filter (\<lambda>r. length (definitions_of_rule r) \<noteq> 1) (remdups rule_names)
       = [''dependencies'', ''allowed'', ''forbidden'', ''items'']"
    by code_simp
  show "map (\<lambda>r. length (definitions_of_rule r))
         [''dependencies'', ''allowed'', ''forbidden'', ''items''] = [2, 2, 2, 2]"
    by code_simp
qed

text \<open>
  C8 as stated fails: \<open>DEPENDENCIES_FIELD\<close> and \<open>DEPENDENCIES_FIELD_VALUE\<close> are two
  definitions with the rule name \<open>dependencies\<close>.
\<close>

theorem C8_counterexample:
  "DEPENDENCIES_FIELD \<in> set error_definitions
   \<and> DEPENDENCIES_FIELD_VALUE \<in> set error_definitions
   \<and> DEPENDENCIES_FIELD \<noteq> DEPENDENCIES_FIELD_VALUE
   \<and> def_rule DEPENDENCIES_FIELD = Some ''dependencies''
   \<and> def_rule DEPENDENCIES_FIELD_VALUE = Some ''dependencies''"
  by (simp add: error_definitions_def error_definition_defs)

text \<open>
  C10. Two errors with the same code whose document path and schema path are swapped
  have the same hash, and so compare equal.
\<close>

theorem C10_swapped_paths_equal:
  assumes "code e1 = code e2"
    and "document_path e1 = schema_path e2"
    and "schema_path e1 = document_path e2"
  shows "ValidationError_eq hp hi e1 e2 \<and> py_hash hp hi e1 = py_hash hp hi e2"
  using assms
  by (simp add: ValidationError_eq_def py_hash_def ValidationError_hash'_def ac_simps)

theorem C10_witness:
  "ValidationError_eq (\<lambda>p. int (length p)) (\<lambda>c. c)
     (ValidationError [SStr ''a''] [SStr ''a'', SStr ''type''] 0x24 (Some ''type'') (VStr ''string'') (VInt 1) [])
     (ValidationError [SStr ''a'', SStr ''type''] [SStr ''a''] 0x24 (Some ''type'') (VStr ''string'') (VInt 1) [])
   \<and> py_hash (\<lambda>p. int (length p)) (\<lambda>c. c)
       (ValidationError [SStr ''a''] [SStr ''a'', SStr ''type''] 0x24 (Some ''type'') (VStr ''string'') (VInt 1) [])
     = py_hash (\<lambda>p. int (length p)) (\<lambda>c. c)
       (ValidationError [SStr ''a'', SStr ''type''] [SStr ''a''] 0x24 (Some ''type'') (VStr ''string'') (VInt 1) [])"
  using C10_swapped_paths_equal
    [of "ValidationError [SStr ''a''] [SStr ''a'', SStr ''type''] 0x24 (Some ''type'') (VStr ''string'') (VInt 1) []"
        "ValidationError [SStr ''a'', SStr ''type''] [SStr ''a''] 0x24 (Some ''type'') (VStr ''string'') (VInt 1) []"
        "\<lambda>p. int (length p)" "\<lambda>c. c"]
  by simp

section \<open>Report building\<close>





text \<open>
  C2 fails on the code for a child: \<open>add\<close> of a group error whose child has a code
  without template raises \<open>KeyError\<close>. Only the top-level dispatch of \<open>add\<close> tests
  \<open>error.code in self.messages\<close>.
\<close>

theorem C2_unknown_child_raises:
  "add rp tree group_unknown_child = Inl KeyError"
  by code_simp

text \<open>
  C3. An \<open>anyof\<close> error on \<open>price\<close> whose four children are distinct objects, each
  a plain error on that field, the first two under definition 0 and the last two under
  definition 1, gives the report with the summary message at \<open>price\<close> and, below it,
  one entry per definition with the messages of its two children.
\<close>

theorem C3_anyof_report:
  assumes "a < length h"
    and "h ! a = HError [SStr ''price''] sp 0x93 (Some ''anyof'') k v
                   (HChildren [a1, a2, a3, a4] # rest)"
    and "read_info 0 h rest = Some rest'"
    and "distinct [a1, a2, a3, a4]"
    and "map (read_error 1 h) [a1, a2, a3, a4] = map Some [c1, c2, c3, c4]"
    and plain: "list_all (\<lambda>c. \<not> is_group_error c \<and> \<not> is_logic_error c
                   \<and> length (document_path c) \<le> 1 \<and> length sp < length (schema_path c))
                 [c1, c2, c3, c4]"
    and idx: "map (\<lambda>c. schema_path c ! length sp) [c1, c2, c3, c4]
                 = [SInt 0, SInt 0, SInt 1, SInt 1]"
    and fmt: "map (format_message rp (Some (SStr ''price''))) [c1, c2, c3, c4]
                 = [Inr m1, Inr m2, Inr m3, Inr m4]"
    and "2 \<le> fuel"
  shows "\<exists>h' tree'. store_call fuel rp tree h [a] =
     Some (h', Inr (tree',
       [(SStr ''price'',
           [Msg ''no definitions validate'',
            Sub [(SStr ''anyof definition 0'', [Msg m1, Msg m2]),
                 (SStr ''anyof definition 1'', [Msg m3, Msg m4])]])]))"
proof -
  from assms(9) obtain f where fuel: "fuel = Suc (Suc f)"
    by (metis Suc_le_D numeral_2_eq_2 Suc_le_mono)
  let ?p0 = "[SStr ''price'', SStr ''anyof definition 0'']"
  let ?p1 = "[SStr ''price'', SStr ''anyof definition 1'']"
  let ?g' = "ValidationError [SStr ''price''] sp 0x93 (Some ''anyof'') k v
               (Children [set_document_path ?p0 c1, set_document_path ?p0 c2,
                          set_document_path ?p1 c3, set_document_path ?p1 c4] # rest')"
  from assms(5) have rd: "map (read_error (Suc 0) h) [a1, a2, a3, a4] = map Some [c1, c2, c3, c4]"
    by simp
  from store_add_anyof_flat [OF assms(1-4) rd plain idx, of f rp "[]"] obtain h' where
    sa: "store_add fuel rp [] h a = Some (h', add_dispatch rp [] ?g')"
    unfolding fuel by blast
  have lg': "is_logic_error ?g'" "is_group_error ?g'"
    by (simp_all add: is_logic_error_def is_group_error_def LOGICAL_def ERROR_GROUP_def)
  have de': "definitions_errors ?g' =
      Inr (Some [(SInt 0, [(0, set_document_path ?p0 c1), (1, set_document_path ?p0 c2)]),
                 (SInt 1, [(2, set_document_path ?p1 c3), (3, set_document_path ?p1 c4)])])"
    using plain idx lg'
    by (simp add: definitions_errors_def for_child_errors_def child_errors_def
          enumerate_eq_zip upt_rec)
  have summary: "format_message rp (Some (SStr ''price'')) ?g' = Inr ''no definitions validate''"
    by (simp add: format_message_def messages_def)
  have ins: "insert_logic_error rp [] ?g' =
      Inr [(SStr ''price'',
           [Msg ''no definitions validate'',
            Sub [(SStr ''anyof definition 0'', [Msg m1, Msg m2, Sub []]),
                 (SStr ''anyof definition 1'', [Msg m3, Msg m4, Sub []])]])]"
    using plain fmt
    apply (subst insert_logic_error.simps)
    apply (simp only: de')
    apply (simp add: field_def summary dict_update_def)
    done
  have pt: "pretty_tree [(SStr ''price'',
           [Msg ''no definitions validate'',
            Sub [(SStr ''anyof definition 0'', [Msg m1, Msg m2, Sub []]),
                 (SStr ''anyof definition 1'', [Msg m3, Msg m4, Sub []])]])]
     = Inr [(SStr ''price'',
           [Msg ''no definitions validate'',
            Sub [(SStr ''anyof definition 0'', [Msg m1, Msg m2]),
                 (SStr ''anyof definition 1'', [Msg m3, Msg m4])]])]"
    using purge_msgs_empty [of "[Msg m1, Msg m2]"] purge_msgs_empty [of "[Msg m3, Msg m4]"]
      purge_Sub_nonempty [of "[(SStr ''anyof definition 0'', [Msg m1, Msg m2, Sub []]),
                 (SStr ''anyof definition 1'', [Msg m3, Msg m4, Sub []])]"
                 "[Msg ''no definitions validate'']"]
    by (simp add: pretty_tree_def)
  show ?thesis
    using lg' sa
    by (simp add: store_call_def clear_def add_dispatch_def ins pt)
qed


theorem C3_witness:
  "(0::nat) < length anyof_store
   \<and> anyof_store ! 0 = HError [SStr ''price''] [SStr ''price'', SStr ''anyof''] 0x93
         (Some ''anyof'') VNone (VStr ''x'') (HChildren [1, 2, 3, 4] # [])
   \<and> read_info 0 anyof_store [] = Some []
   \<and> distinct [1::nat, 2, 3, 4]
   \<and> map (read_error 1 anyof_store) [1, 2, 3, 4] = map Some [anyof_c1, anyof_c2, anyof_c3, anyof_c4]
   \<and> list_all (\<lambda>c. \<not> is_group_error c \<and> \<not> is_logic_error c
          \<and> length (document_path c) \<le> 1
          \<and> length [SStr ''price'', SStr ''anyof''] < length (schema_path c))
        [anyof_c1, anyof_c2, anyof_c3, anyof_c4]
   \<and> map (\<lambda>c. schema_path c ! length [SStr ''price'', SStr ''anyof''])
        [anyof_c1, anyof_c2, anyof_c3, anyof_c4] = [SInt 0, SInt 0, SInt 1, SInt 1]
   \<and> map (format_message repr0 (Some (SStr ''price''))) [anyof_c1, anyof_c2, anyof_c3, anyof_c4]
       = [Inr ''must be of integer type'', Inr ''min value is 10'',
          Inr ''must be of float type'', Inr ''max value is 5'']
   \<and> (2::nat) \<le> 2
   \<and> (\<exists>h' tree'. store_call 2 repr0 used_tree anyof_store [0] =
     Some (h', Inr (tree',
       [(SStr ''price'',
           [Msg ''no definitions validate'',
            Sub [(SStr ''anyof definition 0'',
                  [Msg ''must be of integer type'', Msg ''min value is 10'']),
                 (SStr ''anyof definition 1'',
                  [Msg ''must be of float type'', Msg ''max value is 5''])]])])))"
proof -
  have h1: "(0::nat) < length anyof_store" by code_simp
  have h2: "anyof_store ! 0 = HError [SStr ''price''] [SStr ''price'', SStr ''anyof''] 0x93
         (Some ''anyof'') VNone (VStr ''x'') (HChildren [1, 2, 3, 4] # [])" by code_simp
  have h3: "read_info 0 anyof_store [] = Some []" by simp
  have h4: "distinct [1::nat, 2, 3, 4]" by simp
  have h5: "map (read_error 1 anyof_store) [1, 2, 3, 4]
              = map Some [anyof_c1, anyof_c2, anyof_c3, anyof_c4]" by code_simp
  have h6: "list_all (\<lambda>c. \<not> is_group_error c \<and> \<not> is_logic_error c
          \<and> length (document_path c) \<le> 1
          \<and> length [SStr ''price'', SStr ''anyof''] < length (schema_path c))
        [anyof_c1, anyof_c2, anyof_c3, anyof_c4]" by code_simp
  have h7: "map (\<lambda>c. schema_path c ! length [SStr ''price'', SStr ''anyof''])
        [anyof_c1, anyof_c2, anyof_c3, anyof_c4] = [SInt 0, SInt 0, SInt 1, SInt 1]" by code_simp
  have h8: "map (format_message repr0 (Some (SStr ''price'')))
        [anyof_c1, anyof_c2, anyof_c3, anyof_c4]
       = [Inr ''must be of integer type'', Inr ''min value is 10'',
          Inr ''must be of float type'', Inr ''max value is 5'']" by code_simp
  have h9: "(2::nat) \<le> 2" by simp
  from C3_anyof_report [OF h1 h2 h3 h4 h5 h6 h7 h8 h9, of used_tree]
    h1 h2 h3 h4 h5 h6 h7 h8 h9
  show ?thesis by blast
qed




text \<open>
  C9. A plain error with the empty document path and a code of the catalogue makes
  \<open>add\<close> raise \<open>IndexError\<close>: \<open>_insert_error\<close> reads \<open>path[0]\<close> of the empty path
  (and formatting, which runs first, can itself only raise \<open>IndexError\<close>).
\<close>

theorem C9_empty_path_raises:
  assumes "document_path e = []"
    and "\<not> is_group_error e"
    and "map_of messages (code e) \<noteq> None"
  shows "add rp tree e = Inl IndexError \<and> insert_error tree (document_path e) node = Inl IndexError"
proof -
  from assms(2) have g: "code e AND 0x80 = 0"
    by (simp add: is_group_error_def ERROR_GROUP_def)
  from catalogue_plain_not_logic [OF assms(3) g] have l: "\<not> is_logic_error e"
    by (simp add: is_logic_error_def ERROR_GROUP_def LOGICAL_def)
  have rw: "rewrite_error_path e 0 = Inr e"
    using l assms(2) by (rule rewrite_plain)
  have "add rp tree e = Inl IndexError"
  proof (cases "format_message rp (field e) e")
    case (Inl x)
    with format_message_Inl [OF Inl assms(3)] show ?thesis
      using l assms by (simp add: add_def add_dispatch_def rw)
  next
    case (Inr m)
    then show ?thesis
      using l assms by (simp add: add_def add_dispatch_def rw)
  qed
  then show ?thesis using assms(1) by simp
qed

theorem C9_witness:
  "document_path doc_missing = [] \<and> \<not> is_group_error doc_missing
   \<and> map_of messages (code doc_missing) \<noteq> None
   \<and> add repr0 [] doc_missing = Inl IndexError
   \<and> insert_error [] (document_path doc_missing) (Msg ''document is missing'') = Inl IndexError"
proof -
  have a: "document_path doc_missing = []" by (simp add: doc_missing_def)
  have b: "\<not> is_group_error doc_missing"
    by (simp add: doc_missing_def is_group_error_def ERROR_GROUP_def)
  have c: "map_of messages (code doc_missing) \<noteq> None"
    by (simp add: doc_missing_def messages_def)
  from C9_empty_path_raises [OF a b c, of repr0 "[]" "Msg ''document is missing''"] a b c
  show ?thesis by blast
qed

section \<open>Error tree\<close>

text \<open>
  C4 as stated fails for a group error with the empty path: \<open>ErrorTree.add\<close> appends
  it to the root's own list and does not look at its children, so the child is not
  fetchable at its path.
\<close>

theorem C4_counterexample:
  "is_group_error rootless_group
   \<and> for_child_errors rootless_group = Inr [rootless_child]
   \<and> ErrorTree_add Document lt0 (ErrorTree [] []) rootless_group
       = Inr (ErrorTree [rootless_group] [])
   \<and> rootless_child
       \<notin> set (fetch_errors_from (ErrorTree [rootless_group] []) (path_of Document rootless_child))"
  by code_simp

text \<open>
  C4 (as the code has it). In a well-formed tree, \<open>add\<close> of a group error \<open>g\<close>
  with a non-empty path, whose nested group errors hold error lists, returns a tree
  in which \<open>g\<close> is fetchable at its own path and each of its children at the
  child's own path.
\<close>

theorem C4_group_children_fetchable:
  assumes "wf_tree t" and "flattenable tt g"
    and "is_group_error g" and "path_of tt g \<noteq> []" and "for_child_errors g = Inr es"
  shows "\<exists>t'. ErrorTree_add tt lt t g = Inr t'
           \<and> g \<in> set (fetch_errors_from t' (path_of tt g))
           \<and> (\<forall>c\<in>set es. c \<in> set (fetch_errors_from t' (path_of tt c)))"
proof -
  have wfd: "\<forall>kn\<in>set (tree_descendants t). wf_node (Suc 0) (snd kn)"
    using assms(1) by (simp add: wf_tree_def)
  from node_add_ok [OF wfd, of tt g lt] assms(4)
  obtain descs where na: "node_add tt lt 0 (tree_descendants t) g = Inr descs"
    and wf': "\<forall>kn\<in>set descs. wf_node (Suc 0) (snd kn)"
    and mem: "g \<in> set (descs_errors descs (path_of tt g))"
    by auto
  let ?t1 = "ErrorTree (tree_errors t) descs"
  have wf1: "wf_tree ?t1" using wf' by (simp add: wf_tree_def)
  have mem1: "g \<in> set (fetch_errors_from ?t1 (path_of tt g))"
    using mem assms(4) by (simp add: fetch_errors_from_alt)
  have fl: "\<forall>c\<in>set es. flattenable tt c"
    using assms(2,3,4,5) by (subst (asm) flattenable.simps) auto
  have step: "\<exists>t'. ErrorTree_add tt lt u c = Inr t' \<and> wf_tree t'
          \<and> c \<in> set (fetch_errors_from t' (path_of tt c))
          \<and> (\<forall>q. set (fetch_errors_from u q) \<subseteq> set (fetch_errors_from t' q))"
    if "c \<in> set es" "wf_tree u" for c u
    using tree_add_ok [OF that(2)] fl that(1) by blast
  from foldM_add_ok [of es tt lt ?t1, OF step wf1]
  obtain t2 where t2: "foldM_err (ErrorTree_add tt lt) ?t1 es = Inr t2"
    and mono2: "\<And>q. set (fetch_errors_from ?t1 q) \<subseteq> set (fetch_errors_from t2 q)"
    and mem2: "\<forall>c\<in>set es. c \<in> set (fetch_errors_from t2 (path_of tt c))"
    by blast
  have "ErrorTree_add tt lt t g = Inr t2"
    using assms(3,4,5) na t2 by (subst ErrorTree_add.simps) simp
  moreover have "g \<in> set (fetch_errors_from t2 (path_of tt g))"
    using mem1 mono2 by blast
  ultimately show ?thesis using mem2 by blast
qed

theorem C4_witness:
  "wf_tree (ErrorTree [] []) \<and> flattenable Document group_example
   \<and> is_group_error group_example \<and> path_of Document group_example \<noteq> []
   \<and> for_child_errors group_example = Inr [group_example_child]
   \<and> (\<exists>t'. ErrorTree_add Document lt0 (ErrorTree [] []) group_example = Inr t'
           \<and> group_example \<in> set (fetch_errors_from t' (path_of Document group_example))
           \<and> (\<forall>c\<in>set [group_example_child].
                  c \<in> set (fetch_errors_from t' (path_of Document c))))"
proof -
  have a: "wf_tree (ErrorTree [] [])" by code_simp
  have b: "flattenable Document group_example" by code_simp
  have c: "is_group_error group_example" by code_simp
  have d: "path_of Document group_example \<noteq> []" by code_simp
  have e: "for_child_errors group_example = Inr [group_example_child]" by code_simp
  from C4_group_children_fetchable [OF a b c d e, of lt0] a b c d e
  show ?thesis by blast
qed

section \<open>The caller's errors\<close>

text \<open>
  C6. When \<open>add\<close> returns or raises, every object of the caller's store is as it
  was: the store \<open>add\<close> leaves starts with the caller's store, unchanged, and every
  error read from an address of the caller's store, with its nested child errors, is
  the error read there before. All writes of the rewriting pass go to the copies,
  which lie behind the caller's store.
\<close>

theorem C6_add_leaves_caller_errors_unchanged:
  assumes "store_add fuel rp tree h a = Some (h', r)" and "closed_store h"
  shows "take (length h) h' = h
         \<and> (\<forall>f x. x < length h \<longrightarrow> read_error f h' x = read_error f h x)"
proof -
  let ?n = "length h"
  from assms(1) obtain h1 memo b where dc: "deepcopy fuel h [] a = Some (h1, memo, b)"
    by (auto simp: store_add_def split: option.splits)
  from assms(1) dc obtain ex where rw: "o_rewrite_error_path fuel h1 b 0 = Some (h', ex)"
    by (auto simp: store_add_def split: option.splits)
  have "memo_fresh ?n []" by (simp add: memo_fresh_def)
  moreover have "store_fresh ?n h" by (simp add: store_fresh_def)
  ultimately have t1: "take ?n h1 = take ?n h" and f1: "store_fresh ?n h1" and b: "?n \<le> b"
    using deepcopy_inv(1) [OF dc, of ?n] by simp_all
  from o_rewrite_frame(1) [OF rw b f1] have "take ?n h' = take ?n h1" by simp
  with t1 have frame: "take ?n h' = h" by simp
  moreover have "read_error f h' x = read_error f h x" if "x < ?n" for f x
    using assms(2) frame that by (rule read_prefix(1))
  ultimately show ?thesis by blast
qed

theorem C6_witness:
  "closed_store store_example
   \<and> (\<exists>h' r. store_add 5 repr0 [] store_example 0 = Some (h', r)
         \<and> take (length store_example) h' = store_example
         \<and> (\<forall>f x. x < length store_example
                  \<longrightarrow> read_error f h' x = read_error f store_example x))"
proof -
  have cl: "closed_store store_example" by code_simp
  have ev: "store_add 5 repr0 [] store_example 0 =
     Some ([HError [SStr ''price''] [SStr ''price'', SStr ''anyof''] 147
     (Some ''anyof'') VNone (VStr ''x'') [HChildren [1, 2]],
    HError [SStr ''price'']
     [SStr ''price'', SStr ''anyof'', SInt 0, SStr ''type''] 36
     (Some ''type'') (VStr ''integer'') (VStr ''x'') [],
    HError [SStr ''price'']
     [SStr ''price'', SStr ''anyof'', SInt 1, SStr ''type''] 36
     (Some ''type'') (VStr ''float'') (VStr ''x'') [],
    HError [SStr ''price''] [SStr ''price'', SStr ''anyof''] 147
     (Some ''anyof'') VNone (VStr ''x'') [HChildren [4, 5]],
    HError [SStr ''price'', SStr ''anyof definition 0'']
     [SStr ''price'', SStr ''anyof'', SInt 0, SStr ''type''] 36
     (Some ''type'') (VStr ''integer'') (VStr ''x'') [],
    HError [SStr ''price'', SStr ''anyof definition 1'']
     [SStr ''price'', SStr ''anyof'', SInt 1, SStr ''type''] 36
     (Some ''type'') (VStr ''float'') (VStr ''x'') []],
   Inr [(SStr ''price'',
         [Msg ''no definitions validate'',
          Sub [(SStr ''anyof definition 0'',
                [Msg ''must be of integer type'', Sub []]),
               (SStr ''anyof definition 1'',
                [Msg ''must be of float type'', Sub []])]])])"
    by code_simp
  from C6_add_leaves_caller_errors_unchanged [OF ev cl] ev cl
  show ?thesis by blast
qed

end
